theory Spec2Isabelle
  imports Main "HOL-Library.Word" "HOL-Library.Sublist"
begin

section \<open>JavaScript values used by server.js\<close>

text \<open>
  A JavaScript string is a sequence of 16-bit UTF-16 code units; a \<open>Buffer\<close> is a sequence
  of bytes. String literals of the source are written \<open>lit ''...''\<close>, which maps every
  ASCII character to the code unit (or byte) of the same value.
\<close>

type_synonym unit16 = "16 word"
type_synonym jsstring = "unit16 list"
type_synonym byte = "8 word"
type_synonym buffer = "byte list"

definition lit :: "string \<Rightarrow> 'a::len word list" where
  "lit s = map of_char s"

text \<open>
  The exceptions that reach the request callback: \<open>URIError\<close> from the URI functions, and
  the \<open>TypeError\<close> with code \<open>ERR_INVALID_ARG_VALUE\<close> that the \<open>fs\<close> functions throw,
  before any file access, for a path that contains a NUL character.
\<close>

datatype js_error = URIError | ERR_INVALID_ARG_VALUE

text \<open>\<open>s.split(c)[0]\<close> for a one-character separator: everything before the first \<open>c\<close>.\<close>

definition split_first :: "unit16 \<Rightarrow> jsstring \<Rightarrow> jsstring" where
  "split_first c s = takeWhile (\<lambda>x. x \<noteq> c) s"

text \<open>\<open>s.replace(/^\/+/, '')\<close>: the leading run of slashes is removed.\<close>

definition strip_leading_slashes :: "jsstring \<Rightarrow> jsstring" where
  "strip_leading_slashes s = dropWhile (\<lambda>x. x = 0x2F) s"

text \<open>Pieces joined with a separator between consecutive pieces (\<open>Array.prototype.join\<close>).\<close>

fun join_with :: "'a list \<Rightarrow> 'a list list \<Rightarrow> 'a list" where
  "join_with sep [] = []"
| "join_with sep [x] = x"
| "join_with sep (x # y # ys) = x @ sep @ join_with sep (y # ys)"

subsection \<open>Percent decoding: \<open>decodeURIComponent\<close>\<close>

text \<open>
  The ECMAScript \<open>Decode\<close> operation with an empty reserved set. A \<open>%\<close> must be followed
  by two hexadecimal digits; an octet with the high bit set starts a UTF-8 sequence of
  two to four percent-encoded octets, which must be the valid UTF-8 encoding of a code
  point. Every violation throws \<open>URIError\<close>.
\<close>

definition hexval :: "unit16 \<Rightarrow> nat option" where
  "hexval c =
     (if 0x30 \<le> c \<and> c \<le> 0x39 then Some (unat c - 0x30)
      else if 0x41 \<le> c \<and> c \<le> 0x46 then Some (unat c - 0x41 + 10)
      else if 0x61 \<le> c \<and> c \<le> 0x66 then Some (unat c - 0x61 + 10)
      else None)"

fun pct_octet :: "jsstring \<Rightarrow> (nat \<times> jsstring) option" where
  "pct_octet (p # h1 # h2 # rest) =
     (if p = 0x25 then
        (case hexval h1 of None \<Rightarrow> None
         | Some a \<Rightarrow> (case hexval h2 of None \<Rightarrow> None
                      | Some b \<Rightarrow> Some (16 * a + b, rest)))
      else None)"
| "pct_octet _ = None"

fun pct_octets :: "nat \<Rightarrow> jsstring \<Rightarrow> (nat list \<times> jsstring) option" where
  "pct_octets 0 s = Some ([], s)"
| "pct_octets (Suc n) s =
     (case pct_octet s of None \<Rightarrow> None
      | Some (b, rest) \<Rightarrow>
          (case pct_octets n rest of None \<Rightarrow> None
           | Some (bs, rest') \<Rightarrow> Some (b # bs, rest')))"

text \<open>The number of leading 1 bits of an octet (5 stands for "more than four").\<close>

definition leading_ones :: "nat \<Rightarrow> nat" where
  "leading_ones b =
     (if b < 0x80 then 0 else if b < 0xC0 then 1 else if b < 0xE0 then 2
      else if b < 0xF0 then 3 else if b < 0xF8 then 4 else 5)"

definition is_cont :: "nat \<Rightarrow> bool" where
  "is_cont b \<longleftrightarrow> 0x80 \<le> b \<and> b < 0xC0"

text \<open>
  The code point of a multi-octet UTF-8 sequence, \<open>None\<close> when the sequence is not valid
  UTF-8 (a bad continuation octet, an overlong form, a surrogate, or a value above
  U+10FFFF).
\<close>

fun utf8_value :: "nat list \<Rightarrow> nat option" where
  "utf8_value [b0, b1] =
     (let v = (b0 mod 32) * 64 + b1 mod 64
      in if is_cont b1 \<and> 0x80 \<le> v then Some v else None)"
| "utf8_value [b0, b1, b2] =
     (let v = ((b0 mod 16) * 64 + b1 mod 64) * 64 + b2 mod 64
      in if is_cont b1 \<and> is_cont b2 \<and> 0x800 \<le> v \<and> \<not> (0xD800 \<le> v \<and> v \<le> 0xDFFF)
         then Some v else None)"
| "utf8_value [b0, b1, b2, b3] =
     (let v = (((b0 mod 8) * 64 + b1 mod 64) * 64 + b2 mod 64) * 64 + b3 mod 64
      in if is_cont b1 \<and> is_cont b2 \<and> is_cont b3 \<and> 0x10000 \<le> v \<and> v \<le> 0x10FFFF
         then Some v else None)"
| "utf8_value _ = None"

text \<open>The UTF-16 encoding of a code point: one unit, or a surrogate pair.\<close>

definition utf16_of :: "nat \<Rightarrow> jsstring" where
  "utf16_of v =
     (if v < 0x10000 then [of_nat v]
      else [of_nat (0xD800 + (v - 0x10000) div 0x400),
            of_nat (0xDC00 + (v - 0x10000) mod 0x400)])"

lemma pct_octet_shorter: "pct_octet s = Some (b, rest) \<Longrightarrow> length rest < length s"
  by (induction s rule: pct_octet.induct) (auto split: if_splits option.splits)

lemma pct_octets_shorter: "pct_octets n s = Some (bs, rest) \<Longrightarrow> length rest \<le> length s"
proof (induction n arbitrary: s bs rest)
  case 0
  then show ?case by simp
next
  case (Suc n)
  then show ?case
    by (fastforce split: option.splits prod.splits dest: pct_octet_shorter)
qed

function decodeURIComponent :: "jsstring \<Rightarrow> js_error + jsstring" where
  "decodeURIComponent [] = Inr []"
| "decodeURIComponent (c # cs) =
     (if c \<noteq> 0x25 then
        (case decodeURIComponent cs of Inl e \<Rightarrow> Inl e | Inr r \<Rightarrow> Inr (c # r))
      else
        (case pct_octet (c # cs) of
           None \<Rightarrow> Inl URIError
         | Some (b, rest) \<Rightarrow>
             if leading_ones b = 0 then
               (case decodeURIComponent rest of Inl e \<Rightarrow> Inl e | Inr r \<Rightarrow> Inr (of_nat b # r))
             else if leading_ones b = 1 \<or> 4 < leading_ones b then Inl URIError
             else
               (case pct_octets (leading_ones b - 1) rest of
                  None \<Rightarrow> Inl URIError
                | Some (bs, rest') \<Rightarrow>
                    (case utf8_value (b # bs) of
                       None \<Rightarrow> Inl URIError
                     | Some v \<Rightarrow>
                         (case decodeURIComponent rest' of
                            Inl e \<Rightarrow> Inl e
                          | Inr r \<Rightarrow> Inr (utf16_of v @ r))))))"
  by pat_completeness auto
termination
proof (relation "measure length", goal_cases)
  case 1
  show ?case by simp
next
  case (2 c cs)
  show ?case by simp
next
  case (3 c cs x b rest)
  then show ?case using pct_octet_shorter [of "c # cs" b rest] by simp
next
  case (4 c cs x b rest y bs rest' v)
  then show ?case
    using pct_octet_shorter [of "c # cs" b rest]
      pct_octets_shorter [of "leading_ones b - 1" rest bs rest'] by simp
qed

subsection \<open>POSIX paths: \<open>path.join\<close>, \<open>path.sep\<close>\<close>

text \<open>
  The server runs on the POSIX flavour of Node's \<open>path\<close> module: the separator is
  \<open>/\<close>. \<open>path.normalize\<close> splits the path at slashes, drops empty and \<open>.\<close> segments,
  and lets a \<open>..\<close> segment cancel the segment before it; a \<open>..\<close> with nothing to
  cancel is kept in a relative path and dropped in an absolute one.
\<close>

definition path_sep :: jsstring where
  "path_sep = lit ''/''"

fun split_on :: "'a \<Rightarrow> 'a list \<Rightarrow> 'a list list" where
  "split_on c [] = [[]]"
| "split_on c (x # xs) =
     (if x = c then [] # split_on c xs
      else (case split_on c xs of [] \<Rightarrow> [[x]] | s # ss \<Rightarrow> (x # s) # ss))"

definition normalize_step :: "bool \<Rightarrow> jsstring list \<Rightarrow> jsstring \<Rightarrow> jsstring list" where
  "normalize_step allowAboveRoot res seg =
     (if seg = [] \<or> seg = lit ''.'' then res
      else if seg = lit ''..'' then
        (if res \<noteq> [] \<and> last res \<noteq> lit ''..'' then butlast res
         else if allowAboveRoot then res @ [lit ''..'']
         else res)
      else res @ [seg])"

definition normalizeString :: "jsstring \<Rightarrow> bool \<Rightarrow> jsstring" where
  "normalizeString path allowAboveRoot =
     join_with path_sep (foldl (normalize_step allowAboveRoot) [] (split_on 0x2F path))"

definition path_normalize :: "jsstring \<Rightarrow> jsstring" where
  "path_normalize path =
     (if path = [] then lit ''.''
      else
        let isAbsolute = (hd path = 0x2F);
            trailingSeparator = (last path = 0x2F);
            p = normalizeString path (\<not> isAbsolute)
        in if p = [] then
             (if isAbsolute then lit ''/''
              else if trailingSeparator then lit ''./'' else lit ''.'')
           else
             (if isAbsolute then lit ''/'' else []) @ p
               @ (if trailingSeparator then lit ''/'' else []))"

text \<open>\<open>path.join(...args)\<close>: the non-empty arguments joined with \<open>/\<close>, then normalised.\<close>

definition path_join :: "jsstring list \<Rightarrow> jsstring" where
  "path_join args =
     (let joined = join_with path_sep (filter (\<lambda>a. a \<noteq> []) args)
      in if joined = [] then lit ''.'' else path_normalize joined)"

section \<open>PathResolver: \<open>safeJoin\<close>\<close>

text \<open>
  \<open>safeJoin\<close> throws when \<open>decodeURIComponent\<close> throws (\<open>Inl\<close>), returns \<open>null\<close>
  (\<open>Inr None\<close>) or returns the joined path (\<open>Inr (Some absPath)\<close>).
\<close>

definition safeJoin :: "jsstring \<Rightarrow> jsstring \<Rightarrow> js_error + jsstring option" where
  "safeJoin baseDir urlPath =
     (case decodeURIComponent (split_first 0x3F urlPath) of
        Inl e \<Rightarrow> Inl e
      | Inr decoded \<Rightarrow>
          let cleanPath = split_first 0x23 decoded;
              relative = strip_leading_slashes cleanPath;
              absPath = path_join [baseDir, relative];
              safeRoot = baseDir @ path_sep
          in if \<not> prefix safeRoot absPath then Inr None else Inr (Some absPath))"


section \<open>Buffers\<close>

text \<open>
  \<open>find_sub sep xs\<close> is the index of the first occurrence of \<open>sep\<close> in \<open>xs\<close>
  (\<open>indexOf\<close> from offset 0); \<open>None\<close> stands for JavaScript's \<open>-1\<close>.
\<close>

fun find_sub :: "'a list \<Rightarrow> 'a list \<Rightarrow> nat option" where
  "find_sub sep [] = (if sep = [] then Some 0 else None)"
| "find_sub sep (x # xs) =
     (if prefix sep (x # xs) then Some 0 else map_option Suc (find_sub sep xs))"

definition indexOf :: "'a list \<Rightarrow> 'a list \<Rightarrow> nat \<Rightarrow> nat option" where
  "indexOf buffer val byteOffset =
     (if length buffer < byteOffset then (if val = [] then Some (length buffer) else None)
      else map_option (\<lambda>i. i + byteOffset) (find_sub val (drop byteOffset buffer)))"

definition str_includes :: "'a list \<Rightarrow> 'a list \<Rightarrow> bool" where
  "str_includes s sub \<longleftrightarrow> find_sub sub s \<noteq> None"

text \<open>\<open>s.replace(pat, rep)\<close> with a string pattern: only the first occurrence is replaced.\<close>

definition replace_first :: "'a list \<Rightarrow> 'a list \<Rightarrow> 'a list \<Rightarrow> 'a list" where
  "replace_first pat rep s =
     (case find_sub pat s of None \<Rightarrow> s
      | Some i \<Rightarrow> take i s @ rep @ drop (i + length pat) s)"

text \<open>
  \<open>buf.slice(start, end)\<close>: a negative index counts from the end, both indices are
  clamped to the buffer, and an end before the start gives the empty buffer.
\<close>

definition buf_slice :: "'a list \<Rightarrow> int \<Rightarrow> int \<Rightarrow> 'a list" where
  "buf_slice b start end =
     (let len = int (length b);
          s = (if start < 0 then max 0 (start + len) else min start len);
          e = (if end < 0 then max 0 (end + len) else min end len)
      in if e \<le> s then [] else take (nat (e - s)) (drop (nat s) b))"

definition buf_slice_from :: "'a list \<Rightarrow> int \<Rightarrow> 'a list" where
  "buf_slice_from b start = buf_slice b start (int (length b))"

subsection \<open>UTF-8: \<open>Buffer.from(string)\<close> and \<open>buf.toString('utf8')\<close>\<close>

definition utf8_bytes :: "nat \<Rightarrow> buffer" where
  "utf8_bytes v =
     (if v < 0x80 then [of_nat v]
      else if v < 0x800 then [of_nat (0xC0 + v div 0x40), of_nat (0x80 + v mod 0x40)]
      else if v < 0x10000 then
        [of_nat (0xE0 + v div 0x1000), of_nat (0x80 + (v div 0x40) mod 0x40),
         of_nat (0x80 + v mod 0x40)]
      else
        [of_nat (0xF0 + v div 0x40000), of_nat (0x80 + (v div 0x1000) mod 0x40),
         of_nat (0x80 + (v div 0x40) mod 0x40), of_nat (0x80 + v mod 0x40)])"

definition is_high_surrogate :: "unit16 \<Rightarrow> bool" where
  "is_high_surrogate c \<longleftrightarrow> 0xD800 \<le> c \<and> c \<le> 0xDBFF"

definition is_low_surrogate :: "unit16 \<Rightarrow> bool" where
  "is_low_surrogate c \<longleftrightarrow> 0xDC00 \<le> c \<and> c \<le> 0xDFFF"

definition pair_value :: "unit16 \<Rightarrow> unit16 \<Rightarrow> nat" where
  "pair_value hi lo = 0x10000 + (unat hi - 0xD800) * 0x400 + (unat lo - 0xDC00)"

text \<open>Encoding a string as UTF-8; an unpaired surrogate is written as U+FFFD.\<close>

fun utf8_encode :: "jsstring \<Rightarrow> buffer" where
  "utf8_encode [] = []"
| "utf8_encode [c] =
     utf8_bytes (if is_high_surrogate c \<or> is_low_surrogate c then 0xFFFD else unat c)"
| "utf8_encode (c # d # cs) =
     (if is_high_surrogate c \<and> is_low_surrogate d
      then utf8_bytes (pair_value c d) @ utf8_encode cs
      else utf8_bytes (if is_high_surrogate c \<or> is_low_surrogate c then 0xFFFD else unat c)
             @ utf8_encode (d # cs))"

text \<open>
  Decoding UTF-8 with replacement, as the decoder behind \<open>toString('utf8')\<close> does: the
  arguments are the number of continuation bytes still expected, the code point collected
  so far and the range allowed for the next byte. A byte that cannot continue the
  sequence ends it with U+FFFD and is read again as the start of a new one.
\<close>

fun utf8_decode :: "nat \<Rightarrow> nat \<Rightarrow> nat \<Rightarrow> nat \<Rightarrow> nat list \<Rightarrow> jsstring" where
  "utf8_decode needed cp lower upper [] = (if needed \<noteq> 0 then [0xFFFD] else [])"
| "utf8_decode needed cp lower upper (b # bs) =
     (if needed = 0 then
        (if b \<le> 0x7F then of_nat b # utf8_decode 0 0 0x80 0xBF bs
         else if 0xC2 \<le> b \<and> b \<le> 0xDF then utf8_decode 1 (b mod 0x20) 0x80 0xBF bs
         else if 0xE0 \<le> b \<and> b \<le> 0xEF then
           utf8_decode 2 (b mod 0x10) (if b = 0xE0 then 0xA0 else 0x80)
             (if b = 0xED then 0x9F else 0xBF) bs
         else if 0xF0 \<le> b \<and> b \<le> 0xF4 then
           utf8_decode 3 (b mod 8) (if b = 0xF0 then 0x90 else 0x80)
             (if b = 0xF4 then 0x8F else 0xBF) bs
         else 0xFFFD # utf8_decode 0 0 0x80 0xBF bs)
      else if b < lower \<or> upper < b then 0xFFFD # utf8_decode 0 0 0x80 0xBF (b # bs)
      else if needed = 1 then utf16_of (cp * 0x40 + b mod 0x40) @ utf8_decode 0 0 0x80 0xBF bs
      else utf8_decode (needed - 1) (cp * 0x40 + b mod 0x40) 0x80 0xBF bs)"

definition toString :: "buffer \<Rightarrow> jsstring" where
  "toString buf = utf8_decode 0 0 0x80 0xBF (map unat buf)"

subsection \<open>\<open>encodeURIComponent\<close>\<close>

definition uri_unreserved :: "unit16 \<Rightarrow> bool" where
  "uri_unreserved c \<longleftrightarrow>
     (0x41 \<le> c \<and> c \<le> 0x5A) \<or> (0x61 \<le> c \<and> c \<le> 0x7A) \<or> (0x30 \<le> c \<and> c \<le> 0x39)
     \<or> c \<in> set (lit ''-_.!~*'()'')"

definition hexdigit :: "nat \<Rightarrow> unit16" where
  "hexdigit d = (if d < 10 then of_nat (0x30 + d) else of_nat (0x41 + (d - 10)))"

definition pct_encode :: "byte \<Rightarrow> jsstring" where
  "pct_encode b = [0x25, hexdigit (unat b div 16), hexdigit (unat b mod 16)]"

fun encodeURIComponent :: "jsstring \<Rightarrow> js_error + jsstring" where
  "encodeURIComponent [] = Inr []"
| "encodeURIComponent (c # cs) =
     (if uri_unreserved c then
        (case encodeURIComponent cs of Inl e \<Rightarrow> Inl e | Inr r \<Rightarrow> Inr (c # r))
      else if is_low_surrogate c then Inl URIError
      else if \<not> is_high_surrogate c then
        (case encodeURIComponent cs of Inl e \<Rightarrow> Inl e
         | Inr r \<Rightarrow> Inr (concat (map pct_encode (utf8_bytes (unat c))) @ r))
      else
        (case cs of
           [] \<Rightarrow> Inl URIError
         | d # ds \<Rightarrow>
             if \<not> is_low_surrogate d then Inl URIError
             else
               (case encodeURIComponent ds of Inl e \<Rightarrow> Inl e
                | Inr r \<Rightarrow> Inr (concat (map pct_encode (utf8_bytes (pair_value c d))) @ r))))"

section \<open>MultipartParser: \<open>splitBuffer\<close> and \<open>parseMultipart\<close>\<close>

text \<open>
  The \<open>while\<close> loop of \<open>splitBuffer\<close> with its three variables \<open>parts\<close>, \<open>start\<close> and
  \<open>index\<close>. With an empty separator the loop never ends, so the result is an option
  and \<open>None\<close> means that the call does not return.
\<close>

partial_function (option) splitBuffer_loop ::
  "buffer \<Rightarrow> buffer \<Rightarrow> buffer list \<Rightarrow> nat \<Rightarrow> nat option \<Rightarrow> buffer list option" where
  "splitBuffer_loop buffer separator parts start index =
     (case index of
        None \<Rightarrow> Some (parts @ [buf_slice_from buffer (int start)])
      | Some i \<Rightarrow>
          splitBuffer_loop buffer separator
            (parts @ [buf_slice buffer (int start) (int i)])
            (i + length separator)
            (indexOf buffer separator (i + length separator)))"

declare splitBuffer_loop.simps [code]

definition splitBuffer :: "buffer \<Rightarrow> buffer \<Rightarrow> buffer list option" where
  "splitBuffer buffer separator =
     splitBuffer_loop buffer separator [] 0 (indexOf buffer separator 0)"

definition parseMultipart :: "buffer \<Rightarrow> jsstring \<Rightarrow> buffer list option" where
  "parseMultipart buffer boundary =
     (let boundaryBuffer = utf8_encode (lit ''--'' @ boundary)
      in case splitBuffer buffer boundaryBuffer of
           None \<Rightarrow> None
         | Some chunks \<Rightarrow>
             Some (filter (\<lambda>part. 0 < length part)
                    (map (\<lambda>part. buf_slice part 2 (int (length part) - 2)) chunks)))"


subsection \<open>The regular expressions of \<open>handleUpload\<close>\<close>

text \<open>
  In a regular expression without the \<open>s\<close> flag, \<open>.\<close> matches every code unit except
  the four line terminators. With the \<open>i\<close> flag (and no \<open>u\<close> flag) an ASCII pattern
  character matches exactly the ASCII characters that agree with it up to letter case.
\<close>

definition is_line_terminator :: "unit16 \<Rightarrow> bool" where
  "is_line_terminator c \<longleftrightarrow> c = 0x0A \<or> c = 0x0D \<or> c = 0x2028 \<or> c = 0x2029"

definition ascii_upper :: "unit16 \<Rightarrow> unit16" where
  "ascii_upper c = (if 0x61 \<le> c \<and> c \<le> 0x7A then c - 0x20 else c)"

fun ci_prefix :: "jsstring \<Rightarrow> jsstring \<Rightarrow> bool" where
  "ci_prefix [] s = True"
| "ci_prefix (p # ps) [] = False"
| "ci_prefix (p # ps) (c # cs) = (ascii_upper p = ascii_upper c \<and> ci_prefix ps cs)"

text \<open>
  \<open>/boundary=(.+)$/\<close>: the leftmost \<open>boundary=\<close> that is followed, up to the end of the
  string, by at least one character and no line terminator; the capture is that rest.
\<close>

fun match_boundary :: "jsstring \<Rightarrow> jsstring option" where
  "match_boundary [] = None"
| "match_boundary (c # cs) =
     (if prefix (lit ''boundary='') (c # cs)
         \<and> drop 9 (c # cs) \<noteq> [] \<and> list_all (\<lambda>x. \<not> is_line_terminator x) (drop 9 (c # cs))
      then Some (drop 9 (c # cs))
      else match_boundary cs)"

text \<open>\<open>([^"]+)"\<close> at the start of a string: a non-empty run without quote, then a quote.\<close>

definition quoted :: "jsstring \<Rightarrow> jsstring option" where
  "quoted s =
     (let g = takeWhile (\<lambda>c. c \<noteq> 0x22) s
      in if g \<noteq> [] \<and> length g < length s then Some g else None)"

text \<open>The optional group \<open>(?:; filename="([^"]+)")?\<close>: its capture, or \<open>undefined\<close>.\<close>

definition match_filename :: "jsstring \<Rightarrow> jsstring option" where
  \<open>match_filename v = (if ci_prefix (lit ''; filename="'') v then quoted (drop 12 v) else None)\<close>

text \<open>\<open>name="([^"]+)"(?:; filename="([^"]+)")?\<close> at the start of a string.\<close>

definition match_name :: "jsstring \<Rightarrow> (jsstring \<times> jsstring option) option" where
  \<open>match_name t =
     (if ci_prefix (lit ''name="'') t then
        (case quoted (drop 6 t) of
           None \<Rightarrow> None
         | Some g1 \<Rightarrow> Some (g1, match_filename (drop (6 + length g1 + 1) t)))
      else None)\<close>

text \<open>
  The greedy \<open>.*\<close>: it first takes \<open>n\<close> characters, then gives them back one at a time
  until the rest of the pattern matches.
\<close>

fun try_dotstar :: "jsstring \<Rightarrow> nat \<Rightarrow> (jsstring \<times> jsstring option) option" where
  "try_dotstar rest 0 = match_name rest"
| "try_dotstar rest (Suc n) =
     (case match_name (drop (Suc n) rest) of
        Some r \<Rightarrow> Some r
      | None \<Rightarrow> try_dotstar rest n)"

definition match_disposition_at :: "jsstring \<Rightarrow> (jsstring \<times> jsstring option) option" where
  "match_disposition_at s =
     (if ci_prefix (lit ''content-disposition:'') s then
        try_dotstar (drop 20 s)
          (length (takeWhile (\<lambda>c. \<not> is_line_terminator c) (drop 20 s)))
      else None)"

text \<open>
  \<open>headerText.match(/content-disposition:.*name="([^"]+)"(?:; filename="([^"]+)")?/i)\<close>:
  the match at the leftmost position where one exists. \<open>None\<close> is \<open>null\<close>; in
  \<open>Some (g1, g2)\<close> the components are \<open>dispositionMatch[1]\<close> and \<open>dispositionMatch[2]\<close>.
\<close>

fun match_disposition :: "jsstring \<Rightarrow> (jsstring \<times> jsstring option) option" where
  "match_disposition [] = None"
| "match_disposition (c # cs) =
     (case match_disposition_at (c # cs) of
        Some r \<Rightarrow> Some r
      | None \<Rightarrow> match_disposition cs)"

subsection \<open>\<open>path.basename\<close>, \<open>path.extname\<close>, \<open>toLowerCase\<close>, number formatting\<close>

text \<open>\<open>path.basename\<close>: trailing slashes are ignored, the last segment is returned.\<close>

definition path_basename :: "jsstring \<Rightarrow> jsstring" where
  "path_basename p =
     rev (takeWhile (\<lambda>c. c \<noteq> 0x2F) (dropWhile (\<lambda>c. c = 0x2F) (rev p)))"

text \<open>
  \<open>path.extname\<close>: from the last dot of the base name to its end; empty when there is no
  dot, when the last dot is the first character of the base name, or when the base name
  is \<open>..\<close>.
\<close>

definition path_extname :: "jsstring \<Rightarrow> jsstring" where
  "path_extname p =
     (let b = path_basename p;
          startDot = length b - Suc (length (takeWhile (\<lambda>c. c \<noteq> 0x2E) (rev b)))
      in if 0x2E \<in> set b \<and> startDot \<noteq> 0 \<and> b \<noteq> lit ''..'' then drop startDot b else [])"

text \<open>
  \<open>toLowerCase\<close> on the characters that can lower-case to ASCII: the letters A to Z, the
  Kelvin sign (to \<open>k\<close>) and U+0130 (to \<open>i\<close> followed by U+0307). The other case mappings
  of Unicode relate characters outside ASCII and are left out: they cannot produce or
  destroy an entry of the allow-list, whose entries are ASCII.
\<close>

definition lower_unit :: "unit16 \<Rightarrow> jsstring" where
  "lower_unit c =
     (if 0x41 \<le> c \<and> c \<le> 0x5A then [c + 0x20]
      else if c = 0x212A then [0x6B]
      else if c = 0x0130 then [0x69, 0x0307]
      else [c])"

definition toLowerCase :: "jsstring \<Rightarrow> jsstring" where
  "toLowerCase s = concat (map lower_unit s)"

text \<open>The decimal digits of a number, as the template literal prints \<open>Date.now()\<close>.\<close>

fun show_nat :: "nat \<Rightarrow> jsstring" where
  "show_nat n =
     (if n < 10 then [of_nat (0x30 + n)]
      else show_nat (n div 10) @ [of_nat (0x30 + n mod 10)])"

section \<open>Responses and the file system\<close>

record response =
  status :: nat
  content_type :: jsstring
  body :: buffer

text \<open>\<open>send(res, statusCode, contentType, body)\<close> with a string body, written as UTF-8.\<close>

definition send :: "nat \<Rightarrow> jsstring \<Rightarrow> jsstring \<Rightarrow> response" where
  "send statusCode contentType b =
     \<lparr>status = statusCode, content_type = contentType, body = utf8_encode b\<rparr>"

text \<open>
  The file system maps a path to a readable file or to an entry whose read fails with the
  given error code (a directory, for instance); a path that is not mapped does not exist
  (\<open>ENOENT\<close>). A path with a NUL character is refused by \<open>fs.readFile\<close> and
  \<open>fs.writeFileSync\<close> with an exception. Any other \<open>writeFileSync\<close> into the upload
  directory, which is created at start-up, is taken to succeed.
\<close>

definition has_nul :: "jsstring \<Rightarrow> bool" where
  "has_nul p \<longleftrightarrow> 0 \<in> set p"

datatype fs_node = File buffer | Unreadable jsstring

type_synonym filesystem = "jsstring \<rightharpoonup> fs_node"

text \<open>The outcome of handling a request: a response, or an exception that nothing catches.\<close>

datatype result = Response response | Uncaught js_error

section \<open>FileResponder: \<open>serveFile\<close>\<close>

text \<open>
  \<open>mime.lookup\<close> belongs to the package \<open>mime-types\<close> and is a parameter here.
  \<open>fs.readFile\<close> throws at once for a path with a NUL character; nothing catches the
  exception. Otherwise the callback sends 404 for a missing file, 500 with the error code
  for any other failure, and 200 with the content.
\<close>

definition serveFile ::
  "(jsstring \<Rightarrow> jsstring option) \<Rightarrow> filesystem \<Rightarrow> jsstring \<Rightarrow> result" where
  "serveFile mime_lookup fs filePath =
     (if has_nul filePath then Uncaught ERR_INVALID_ARG_VALUE
      else
        (case fs filePath of
           None \<Rightarrow>
             Response (send 404 (lit ''text/html'') (lit ''<h1>404 - File Not Found</h1>''))
         | Some (Unreadable code) \<Rightarrow>
             Response (send 500 (lit ''text/plain'') (lit ''Server Error: '' @ code))
         | Some (File content) \<Rightarrow>
             Response
               \<lparr>status = 200,
                content_type = (case mime_lookup filePath of
                                  Some t \<Rightarrow> t | None \<Rightarrow> lit ''application/octet-stream''),
                body = content\<rparr>))"

section \<open>UploadValidator: \<open>handleUpload\<close>\<close>

definition MAX_UPLOAD_BYTES :: nat where
  "MAX_UPLOAD_BYTES = 10 * 1024 * 1024"

definition ALLOWED_EXTENSIONS :: "jsstring list" where
  "ALLOWED_EXTENSIONS =
     [lit ''.png'', lit ''.jpg'', lit ''.jpeg'', lit ''.gif'', lit ''.pdf'', lit ''.txt'']"

text \<open>
  The synchronous start of \<open>handleUpload\<close>: it either answers at once, or registers the
  \<open>data\<close>, \<open>end\<close> and \<open>error\<close> handlers, which share the boundary.
\<close>

datatype upload_start = Responded response | Listening jsstring

definition handleUpload_start :: "(jsstring \<rightharpoonup> jsstring) \<Rightarrow> upload_start" where
  "handleUpload_start headers =
     (let contentType = (case headers (lit ''content-type'') of None \<Rightarrow> [] | Some v \<Rightarrow> v)
      in if \<not> str_includes contentType (lit ''multipart/form-data'')
         then Responded (send 400 (lit ''text/plain'') (lit ''Invalid form encoding''))
         else
           (case match_boundary contentType of
              None \<Rightarrow> Responded (send 400 (lit ''text/plain'') (lit ''Missing boundary''))
            | Some boundary \<Rightarrow> Listening boundary))"

text \<open>
  The variables the handlers close over, together with what the \<open>data\<close> handler has done
  to the request: destroyed it and sent a response.
\<close>

record upload_state =
  totalBytes :: nat
  chunks :: "buffer list"
  destroyed :: bool
  responded :: "response option"

definition upload_init :: upload_state where
  "upload_init = \<lparr>totalBytes = 0, chunks = [], destroyed = False, responded = None\<rparr>"

definition on_data :: "upload_state \<Rightarrow> buffer \<Rightarrow> upload_state" where
  "on_data st chunk =
     (let st1 = st\<lparr>totalBytes := totalBytes st + length chunk\<rparr>
      in if MAX_UPLOAD_BYTES < totalBytes st1
         then st1\<lparr>destroyed := True,
                  responded := Some (send 413 (lit ''text/plain'') (lit ''File too large''))\<rparr>
         else st1\<lparr>chunks := chunks st1 @ [chunk]\<rparr>)"

text \<open>
  The request stream delivers its chunks in order to the \<open>data\<close> handler; a destroyed
  stream emits no further \<open>data\<close> event and no \<open>end\<close> event.
\<close>

fun receive :: "upload_state \<Rightarrow> buffer list \<Rightarrow> upload_state" where
  "receive st [] = st"
| "receive st (c # cs) = (if destroyed st then st else receive (on_data st c) cs)"

text \<open>One iteration of the \<open>for\<close> loop over the parts, up to the decision it takes.\<close>

datatype part_action = Skip | Reject | Store jsstring buffer

definition process_part :: "buffer \<Rightarrow> part_action" where
  "process_part part =
     (case indexOf part [0x0D, 0x0A, 0x0D, 0x0A] 0 of
        None \<Rightarrow> Skip
      | Some headerEnd \<Rightarrow>
          let headerText = toString (buf_slice part 0 (int headerEnd));
              data = buf_slice_from part (int headerEnd + 4)
          in case match_disposition headerText of
               None \<Rightarrow> Skip
             | Some (fieldName, fileNameRaw) \<Rightarrow>
                 (case fileNameRaw of
                    None \<Rightarrow> Skip
                  | Some name \<Rightarrow>
                      if fieldName \<noteq> lit ''file'' \<or> name = [] then Skip
                      else
                        let safeName = path_basename name;
                            ext = toLowerCase (path_extname safeName)
                        in if ext \<notin> set ALLOWED_EXTENSIONS then Reject
                           else Store safeName data))"

text \<open>
  The loop: the early \<open>return\<close> with 415, the exception of \<open>writeFileSync\<close> for a
  target path with a NUL character, the \<open>break\<close> after the write with \<open>savedFile\<close>
  set, or the end of the parts with \<open>savedFile\<close> still \<open>null\<close>.
\<close>

datatype loop_exit = Returned response | Threw js_error | Saved jsstring | Finished

fun upload_parts ::
  "jsstring \<Rightarrow> nat \<Rightarrow> filesystem \<Rightarrow> buffer list \<Rightarrow> loop_exit \<times> filesystem" where
  "upload_parts uploadDir now fs [] = (Finished, fs)"
| "upload_parts uploadDir now fs (part # parts) =
     (case process_part part of
        Skip \<Rightarrow> upload_parts uploadDir now fs parts
      | Reject \<Rightarrow> (Returned (send 415 (lit ''text/plain'') (lit ''File type not allowed'')), fs)
      | Store safeName data \<Rightarrow>
          let finalName = show_nat now @ lit ''-'' @ safeName;
              targetPath = path_join [uploadDir, finalName]
          in if has_nul targetPath then (Threw ERR_INVALID_ARG_VALUE, fs)
             else (Saved finalName, fs(targetPath \<mapsto> File data)))"

definition upload_link :: "jsstring \<Rightarrow> jsstring" where
  \<open>upload_link link =
     lit ''<h1>Upload complete</h1><p><a href="'' @ link @ lit ''">View file</a></p>''\<close>

definition on_end ::
  "jsstring \<Rightarrow> nat \<Rightarrow> filesystem \<Rightarrow> jsstring \<Rightarrow> upload_state
     \<Rightarrow> (result \<times> filesystem) option" where
  "on_end uploadDir now fs boundary st =
     (let bodyBuffer = concat (chunks st)
      in case parseMultipart bodyBuffer boundary of
           None \<Rightarrow> None
         | Some parts \<Rightarrow>
             (case upload_parts uploadDir now fs parts of
                (Returned r, fs') \<Rightarrow> Some (Response r, fs')
              | (Threw err, fs') \<Rightarrow> Some (Uncaught err, fs')
              | (Finished, fs') \<Rightarrow>
                  Some (Response (send 400 (lit ''text/plain'') (lit ''No file uploaded'')), fs')
              | (Saved savedFile, fs') \<Rightarrow>
                  (case encodeURIComponent savedFile of
                     Inl e \<Rightarrow> Some (Uncaught e, fs')
                   | Inr enc \<Rightarrow>
                       Some (Response (send 200 (lit ''text/html'')
                               (upload_link (lit ''/uploads/'' @ enc))), fs'))))"

text \<open>How the request body ends: with the \<open>end\<close> event or with an \<open>error\<close> event.\<close>

datatype stream_end = Ended | Errored

record request =
  req_method :: jsstring
  req_url :: jsstring
  req_headers :: "jsstring \<rightharpoonup> jsstring"
  req_chunks :: "buffer list"
  req_ending :: stream_end

definition handleUpload ::
  "jsstring \<Rightarrow> nat \<Rightarrow> filesystem \<Rightarrow> request \<Rightarrow> (result \<times> filesystem) option" where
  "handleUpload uploadDir now fs req =
     (case handleUpload_start (req_headers req) of
        Responded r \<Rightarrow> Some (Response r, fs)
      | Listening boundary \<Rightarrow>
          let st = receive upload_init (req_chunks req)
          in case responded st of
               Some r \<Rightarrow> Some (Response r, fs)
             | None \<Rightarrow>
                 (case req_ending req of
                    Ended \<Rightarrow> on_end uploadDir now fs boundary st
                  | Errored \<Rightarrow>
                      Some (Response (send 500 (lit ''text/plain'') (lit ''Upload failed'')), fs)))"

section \<open>RequestRouter: the \<open>http.createServer\<close> callback\<close>

text \<open>
  The process environment: the directory of \<open>server.js\<close>, the variables \<open>RENDER\<close> and
  \<open>UPLOAD_DIR\<close> (an unset and an empty variable are both falsy), and \<open>mime.lookup\<close>.
\<close>

record env =
  dirname :: jsstring
  env_RENDER :: "jsstring option"
  env_UPLOAD_DIR :: "jsstring option"
  mime_lookup :: "jsstring \<Rightarrow> jsstring option"

definition truthy :: "jsstring option \<Rightarrow> bool" where
  "truthy v \<longleftrightarrow> (case v of None \<Rightarrow> False | Some s \<Rightarrow> s \<noteq> [])"

definition PUBLIC_DIR :: "env \<Rightarrow> jsstring" where
  "PUBLIC_DIR e = path_join [dirname e, lit ''public'']"

definition DEFAULT_UPLOAD_DIR :: "env \<Rightarrow> jsstring" where
  "DEFAULT_UPLOAD_DIR e =
     (if truthy (env_RENDER e) then path_join [lit ''/tmp'', lit ''uploads'']
      else path_join [dirname e, lit ''uploads''])"

definition UPLOAD_DIR :: "env \<Rightarrow> jsstring" where
  "UPLOAD_DIR e =
     (case env_UPLOAD_DIR e of
        None \<Rightarrow> DEFAULT_UPLOAD_DIR e
      | Some d \<Rightarrow> if d = [] then DEFAULT_UPLOAD_DIR e else d)"

text \<open>The two branches that resolve a path: 403 for \<open>null\<close>, \<open>serveFile\<close> otherwise.\<close>

definition serve_resolved ::
  "env \<Rightarrow> filesystem \<Rightarrow> js_error + jsstring option \<Rightarrow> result" where
  "serve_resolved e fs resolved =
     (case resolved of
        Inl err \<Rightarrow> Uncaught err
      | Inr None \<Rightarrow> Response (send 403 (lit ''text/plain'') (lit ''Forbidden''))
      | Inr (Some filePath) \<Rightarrow> serveFile (mime_lookup e) fs filePath)"

definition server ::
  "env \<Rightarrow> nat \<Rightarrow> filesystem \<Rightarrow> request \<Rightarrow> (result \<times> filesystem) option" where
  "server e now fs req =
     (if req_method req = lit ''POST'' \<and> req_url req = lit ''/upload''
      then handleUpload (UPLOAD_DIR e) now fs req
      else if req_method req \<noteq> lit ''GET'' \<and> req_method req \<noteq> lit ''HEAD''
      then Some (Response (send 405 (lit ''text/plain'') (lit ''Method Not Allowed'')), fs)
      else if req_url req = lit ''/'' \<or> req_url req = lit ''/index.html''
      then Some (serveFile (mime_lookup e) fs (path_join [PUBLIC_DIR e, lit ''index.html'']),
                 fs)
      else if prefix (lit ''/uploads/'') (req_url req)
      then Some (serve_resolved e fs
                   (safeJoin (UPLOAD_DIR e) (replace_first (lit ''/uploads/'') [] (req_url req))),
                 fs)
      else Some (serve_resolved e fs (safeJoin (PUBLIC_DIR e) (req_url req)), fs))"


section \<open>The branches of the router, as the specification lists them\<close>

text \<open>
  The five branches of the per-request state machine in the order of the specification;
  \<open>select_branch\<close> follows its wording and is compared with \<open>server\<close> below.
\<close>

datatype branch = UploadBranch | MethodNotAllowed | IndexBranch | UploadsBranch | PublicBranch

definition select_branch :: "request \<Rightarrow> branch" where
  "select_branch req =
     (if req_method req = lit ''POST'' \<and> req_url req = lit ''/upload'' then UploadBranch
      else if req_method req \<noteq> lit ''GET'' \<and> req_method req \<noteq> lit ''HEAD''
      then MethodNotAllowed
      else if req_url req = lit ''/'' \<or> req_url req = lit ''/index.html'' then IndexBranch
      else if prefix (lit ''/uploads/'') (req_url req) then UploadsBranch
      else PublicBranch)"

section \<open>Counting separators, as the specification words it\<close>

text \<open>
  The number of occurrences of the separator found by scanning from left to right: where
  the separator starts, it is counted and skipped; elsewhere the scan moves on by one.
\<close>

function count_sep :: "'a list \<Rightarrow> 'a list \<Rightarrow> nat" where
  "count_sep sep [] = 0"
| "count_sep sep (x # xs) =
     (if sep \<noteq> [] \<and> prefix sep (x # xs)
      then Suc (count_sep sep (drop (length sep) (x # xs)))
      else count_sep sep xs)"
  by pat_completeness auto
termination
  by (relation "measure (\<lambda>(sep, xs). length xs)") (auto simp: neq_Nil_conv)

section \<open>A sample environment and requests\<close>

text \<open>
  A deployment in \<open>/srv/app\<close> with neither \<open>RENDER\<close> nor \<open>UPLOAD_DIR\<close> set, used
  to instantiate the theorems.
\<close>

definition example_env :: env where
  "example_env =
     \<lparr>dirname = lit ''/srv/app'', env_RENDER = None, env_UPLOAD_DIR = None,
      mime_lookup = (\<lambda>_. None)\<rparr>"

definition get_request :: "jsstring \<Rightarrow> request" where
  "get_request u =
     \<lparr>req_method = lit ''GET'', req_url = u, req_headers = Map.empty,
      req_chunks = [], req_ending = Ended\<rparr>"

text \<open>A \<open>POST /upload\<close> with the given \<open>Content-Type\<close> whose body arrives in the given chunks.\<close>

definition post_upload :: "jsstring \<Rightarrow> buffer list \<Rightarrow> request" where
  "post_upload ct cs =
     \<lparr>req_method = lit ''POST'', req_url = lit ''/upload'',
      req_headers = [lit ''content-type'' \<mapsto> ct],
      req_chunks = cs, req_ending = Ended\<rparr>"

text \<open>A file system with an index document and one file in the upload directory.\<close>

definition sample_fs :: filesystem where
  "sample_fs =
     [lit ''/srv/app/public/index.html'' \<mapsto> File (lit ''<h1>Files</h1>''),
      lit ''/srv/app/uploads/1-a.txt'' \<mapsto> File (lit ''first'')]"

text \<open>A buffer of \<open>n\<close> bytes, and sample multipart bodies with the boundary \<open>XYZ\<close>.\<close>

definition filler :: "nat \<Rightarrow> buffer" where
  "filler n = replicate n 0x41"

definition crlf :: buffer where
  "crlf = [0x0D, 0x0A]"

definition header_report_pdf :: buffer where
  \<open>header_report_pdf =
     lit ''Content-Disposition: form-data; name="file"; filename="report.pdf"''\<close>

definition body_report_pdf :: buffer where
  "body_report_pdf =
     lit ''--XYZ'' @ crlf @ header_report_pdf @ crlf @ crlf @ lit ''%PDF-1.4'' @ crlf
       @ lit ''--XYZ--'' @ crlf"

definition header_virus_exe :: buffer where
  \<open>header_virus_exe =
     lit ''Content-Disposition: form-data; name="file"; filename="virus.exe"''\<close>

definition body_virus_exe :: buffer where
  "body_virus_exe =
     lit ''--XYZ'' @ crlf @ header_virus_exe @ crlf @ crlf @ lit ''MZ'' @ crlf
       @ lit ''--XYZ--'' @ crlf"

definition header_a_txt :: buffer where
  \<open>header_a_txt = lit ''Content-Disposition: form-data; name="file"; filename="a.txt"''\<close>

definition header_b_txt :: buffer where
  \<open>header_b_txt = lit ''Content-Disposition: form-data; name="file"; filename="b.txt"''\<close>

definition body_two_files :: buffer where
  "body_two_files =
     lit ''--XYZ'' @ crlf @ header_a_txt @ crlf @ crlf @ lit ''first'' @ crlf
       @ lit ''--XYZ'' @ crlf @ header_b_txt @ crlf @ crlf @ lit ''second'' @ crlf
       @ lit ''--XYZ--'' @ crlf"

definition multipart_xyz :: jsstring where
  "multipart_xyz = lit ''multipart/form-data; boundary=XYZ''"

section \<open>Auxiliary notions for the proofs\<close>

text \<open>The length of a list of segments when each is followed by one separator.\<close>

definition wt :: "'a list list \<Rightarrow> nat" where
  "wt segs = sum_list (map (\<lambda>s. Suc (length s)) segs)"

definition empties :: "'a list list \<Rightarrow> nat" where
  "empties segs = length (filter (\<lambda>s. s = []) segs)"


section \<open>Path normalisation never lengthens a path\<close>

lemma wt_simps [simp]:
  "wt [] = 0" "wt (s # ss) = Suc (length s) + wt ss" "wt (xs @ ys) = wt xs + wt ys"
  by (simp_all add: wt_def)

lemma split_on_nonempty [simp]: "split_on c s \<noteq> []"
  by (induction s) (auto split: list.splits)

lemma wt_split_on: "wt (split_on c s) = Suc (length s)"
proof (induction s)
  case Nil
  show ?case by simp
next
  case (Cons x xs)
  obtain a as where r: "split_on c xs = a # as"
    by (cases "split_on c xs") auto
  with Cons show ?case by auto
qed

lemma join_split_on: "join_with [c] (split_on c s) = s"
proof (induction s)
  case Nil
  show ?case by simp
next
  case (Cons x xs)
  obtain a as where r: "split_on c xs = a # as"
    by (cases "split_on c xs") auto
  with Cons show ?case by (cases as) auto
qed

lemma length_join_with_sep:
  "segs \<noteq> [] \<Longrightarrow> Suc (length (join_with path_sep segs)) = wt segs"
  by (induction path_sep segs rule: join_with.induct) (auto simp: path_sep_def lit_def)

lemma wt_butlast: "wt (butlast xs) \<le> wt xs"
  by (induction xs) auto

lemma wt_normalize_step:
  "wt (normalize_step a res seg) + (if seg = [] then 1 else 0) \<le> wt res + Suc (length seg)"
  using wt_butlast [of res] by (auto simp: normalize_step_def lit_def)

lemma wt_foldl_normalize:
  "wt (foldl (normalize_step a) res segs) + empties segs \<le> wt res + wt segs"
proof (induction segs arbitrary: res)
  case Nil
  show ?case by (simp add: empties_def)
next
  case (Cons s ss)
  have "wt (foldl (normalize_step a) (normalize_step a res s) ss) + empties ss
          \<le> wt (normalize_step a res s) + wt ss"
    by (rule Cons.IH)
  moreover have "wt (normalize_step a res s) + (if s = [] then 1 else 0)
                   \<le> wt res + Suc (length s)"
    by (rule wt_normalize_step)
  ultimately show ?case by (auto simp: empties_def)
qed

lemma hd_split_on:
  "s \<noteq> [] \<Longrightarrow> hd s = c \<Longrightarrow> \<exists>r. split_on c s = [] # r \<and> r = split_on c (tl s)"
  by (cases s) auto

lemma last_split_on: "s \<noteq> [] \<Longrightarrow> last s = c \<Longrightarrow> last (split_on c s) = []"
proof (induction s)
  case Nil
  then show ?case by simp
next
  case (Cons x xs)
  show ?case
  proof (cases "xs = []")
    case True
    with Cons.prems show ?thesis by simp
  next
    case False
    with Cons have IH: "last (split_on c xs) = []" by simp
    obtain a as where r: "split_on c xs = a # as"
      by (cases "split_on c xs") auto
    have "as \<noteq> []"
    proof
      assume "as = []"
      with IH r have "split_on c xs = [[]]" by simp
      then have "join_with [c] (split_on c xs) = []" by simp
      then show False using False by (simp add: join_split_on)
    qed
    with IH r show ?thesis by auto
  qed
qed

lemma empties_last: "segs \<noteq> [] \<Longrightarrow> last segs = [] \<Longrightarrow> 1 \<le> empties segs"
  by (induction segs) (auto simp: empties_def split: if_splits)

lemma empties_bounds:
  assumes "s \<noteq> []"
  shows "(if hd s = c then 1 else 0) + (if last s = c then 1 else 0) \<le> empties (split_on c s)"
proof (cases "hd s = c")
  case True
  then obtain r where r: "split_on c s = [] # r" "r = split_on c (tl s)"
    using hd_split_on [OF assms] by blast
  show ?thesis
  proof (cases "last s = c")
    case l: True
    have "last r = []"
    proof (cases "tl s = []")
      case True
      then show ?thesis using r by simp
    next
      case False
      then have "last (tl s) = c" using l assms by (cases s) auto
      then show ?thesis using last_split_on [OF False] r by simp
    qed
    moreover have "r \<noteq> []" using r by simp
    ultimately have "1 \<le> empties r" by (rule empties_last [rotated])
    then show ?thesis using True l r by (simp add: empties_def)
  next
    case False
    then show ?thesis using True r by (simp add: empties_def)
  qed
next
  case False
  show ?thesis
  proof (cases "last s = c")
    case True
    then show ?thesis
      using False empties_last [OF split_on_nonempty last_split_on [OF assms True]] by simp
  next
    case l: False
    then show ?thesis using False by simp
  qed
qed

lemma length_path_normalize:
  assumes ne: "path \<noteq> []"
  shows "length (path_normalize path) \<le> length path"
proof -
  define a where "a = (hd path \<noteq> (0x2F::unit16))"
  define stack where "stack = foldl (normalize_step a) [] (split_on 0x2F path)"
  have p: "normalizeString path a = join_with path_sep stack"
    by (simp add: normalizeString_def stack_def)
  have "wt stack + empties (split_on 0x2F path) \<le> wt (split_on 0x2F path)"
    unfolding stack_def using wt_foldl_normalize [of a "[]" "split_on 0x2F path"] by simp
  then have w: "wt stack + empties (split_on 0x2F path) \<le> Suc (length path)"
    by (simp add: wt_split_on)
  have e: "(if hd path = 0x2F then 1 else 0) + (if last path = 0x2F then 1 else 0)
             \<le> empties (split_on 0x2F path)"
    by (rule empties_bounds [OF ne])
  show ?thesis
  proof (cases "join_with path_sep stack = []")
    case True
    have "hd path \<noteq> 0x2F \<Longrightarrow> last path = 0x2F \<Longrightarrow> 2 \<le> length path"
    proof -
      assume h: "hd path \<noteq> 0x2F" and l: "last path = 0x2F"
      obtain x xs where x: "path = x # xs" using ne by (cases path) auto
      with h l have "xs \<noteq> []" by auto
      with x show ?thesis by (cases xs) auto
    qed
    moreover have "1 \<le> length path" using ne by (cases path) auto
    ultimately show ?thesis using True ne p
      by (auto simp: path_normalize_def Let_def a_def lit_def)
  next
    case False
    then have sne: "stack \<noteq> []" by auto
    have "Suc (length (join_with path_sep stack)) = wt stack"
      by (rule length_join_with_sep [OF sne])
    then show ?thesis using False ne p w e
      by (auto simp: path_normalize_def Let_def a_def lit_def)
  qed
qed

text \<open>An absolute path is normalised to one without \<open>..\<close> segments.\<close>

lemma split_on_no_sep: "s \<in> set (split_on c xs) \<Longrightarrow> c \<notin> set s"
proof (induction xs arbitrary: s)
  case Nil
  then show ?case by simp
next
  case (Cons x xs)
  obtain a as where r: "split_on c xs = a # as"
    by (cases "split_on c xs") auto
  show ?case
  proof (cases "x = c")
    case True
    then show ?thesis using Cons by auto
  next
    case False
    then have "s = x # a \<or> s \<in> set as" using Cons.prems r by simp
    moreover have "c \<notin> set a" using Cons.IH [of a] r by simp
    moreover have "s \<in> set as \<Longrightarrow> c \<notin> set s" using Cons.IH [of s] r by simp
    ultimately show ?thesis using False by auto
  qed
qed

lemma split_on_without_sep: "c \<notin> set x \<Longrightarrow> split_on c x = [x]"
  by (induction x) auto

lemma split_on_append: "c \<notin> set x \<Longrightarrow> split_on c (x @ c # ys) = x # split_on c ys"
  by (induction x) auto

lemma split_on_join_with:
  "segs \<noteq> [] \<Longrightarrow> \<forall>s \<in> set segs. c \<notin> set s \<Longrightarrow> split_on c (join_with [c] segs) = segs"
proof (induction "[c]" segs rule: join_with.induct)
  case 1
  then show ?case by simp
next
  case (2 x)
  then show ?case by (simp add: split_on_without_sep)
next
  case (3 x y ys)
  then show ?case by (simp add: split_on_append)
qed

lemma split_on_snoc_sep: "split_on c (xs @ [c]) = split_on c xs @ [[]]"
proof (induction xs)
  case Nil
  show ?case by simp
next
  case (Cons x xs)
  obtain a as where r: "split_on c xs = a # as"
    by (cases "split_on c xs") auto
  with Cons show ?case by auto
qed

text \<open>What an absolute path keeps: segments of the input other than \<open>.\<close> and \<open>..\<close>.\<close>

lemma normalize_step_absolute:
  assumes "\<forall>s \<in> set res. s \<in> S \<and> s \<noteq> lit ''..''"
  shows "\<forall>s \<in> set (normalize_step False res seg). s \<in> insert seg S \<and> s \<noteq> lit ''..''"
  using assms by (auto simp: normalize_step_def dest: in_set_butlastD)

lemma foldl_normalize_absolute:
  "\<forall>s \<in> set res. s \<in> S \<and> s \<noteq> lit ''..'' \<Longrightarrow>
   \<forall>s \<in> set (foldl (normalize_step False) res segs). s \<in> set segs \<union> S \<and> s \<noteq> lit ''..''"
proof (induction segs arbitrary: res S)
  case Nil
  then show ?case by simp
next
  case (Cons seg segs)
  have "\<forall>s \<in> set (normalize_step False res seg). s \<in> insert seg S \<and> s \<noteq> lit ''..''"
    using Cons.prems by (rule normalize_step_absolute)
  from Cons.IH [OF this] show ?case by auto
qed

lemma path_normalize_absolute_no_dotdot:
  assumes ne: "path \<noteq> []" and ab: "hd path = 0x2F"
  shows "lit ''..'' \<notin> set (split_on 0x2F (path_normalize path))"
proof -
  define stack where "stack = foldl (normalize_step False) [] (split_on 0x2F path)"
  have "\<forall>s \<in> set ([]::jsstring list). s \<in> {} \<and> s \<noteq> lit ''..''" by simp
  from foldl_normalize_absolute [OF this, of "split_on 0x2F path"]
  have st: "\<forall>s \<in> set stack. s \<in> set (split_on 0x2F path) \<and> s \<noteq> lit ''..''"
    unfolding stack_def by simp
  have ns: "\<forall>s \<in> set stack. (0x2F::unit16) \<notin> set s"
  proof
    fix s assume "s \<in> set stack"
    then have "s \<in> set (split_on 0x2F path)" using st by simp
    then show "(0x2F::unit16) \<notin> set s" by (rule split_on_no_sep)
  qed
  have p: "normalizeString path False = join_with [0x2F] stack"
    by (simp add: normalizeString_def stack_def path_sep_def lit_def)
  have dd: "lit ''..'' \<notin> set stack" using st by blast
  have e: "lit ''..'' \<noteq> ([]::jsstring)" by (simp add: lit_def)
  show ?thesis
  proof (cases "join_with [0x2F::unit16] stack = []")
    case True
    have "path_normalize path = [0x2F]"
      using ne ab p True by (simp add: path_normalize_def lit_def)
    then show ?thesis using e by simp
  next
    case False
    then have sne: "stack \<noteq> []" by auto
    have sp: "split_on 0x2F (join_with [0x2F::unit16] stack) = stack"
      using sne ns by (rule split_on_join_with)
    show ?thesis
    proof (cases "last path = 0x2F")
      case True
      have "path_normalize path = 0x2F # (join_with [0x2F] stack @ [0x2F])"
        using ne ab p False True by (simp add: path_normalize_def lit_def)
      then have "split_on 0x2F (path_normalize path) = [] # stack @ [[]]"
        by (simp add: split_on_snoc_sep sp)
      then show ?thesis using dd e by simp
    next
      case l: False
      have "path_normalize path = 0x2F # join_with [0x2F] stack"
        using ne ab p False l by (simp add: path_normalize_def lit_def)
      then have "split_on 0x2F (path_normalize path) = [] # stack"
        by (simp add: sp)
      then show ?thesis using dd e by simp
    qed
  qed
qed

lemma path_join_absolute_no_dotdot:
  assumes "prefix path_sep baseDir"
  shows "lit ''..'' \<notin> set (split_on 0x2F (path_join [baseDir, relative]))"
proof -
  obtain r where b: "baseDir = 0x2F # r"
    using assms by (auto simp: prefix_def path_sep_def lit_def)
  define joined where "joined = (if relative = [] then baseDir else baseDir @ path_sep @ relative)"
  have j: "joined \<noteq> []" "hd joined = 0x2F"
    using b by (simp_all add: joined_def)
  have "path_join [baseDir, relative] = path_normalize joined"
    using b j by (simp add: path_join_def joined_def)
  then show ?thesis
    using path_normalize_absolute_no_dotdot [OF j] by simp
qed

text \<open>The only exception of \<open>decodeURIComponent\<close>, and so of \<open>safeJoin\<close>, is \<open>URIError\<close>.\<close>

lemma decodeURIComponent_error: "decodeURIComponent s = Inl err \<Longrightarrow> err = URIError"
  by (induction s arbitrary: err rule: decodeURIComponent.induct)
     (auto split: if_splits sum.splits option.splits prod.splits)

lemma safeJoin_error: "safeJoin baseDir urlPath = Inl err \<Longrightarrow> err = URIError"
  by (auto simp: safeJoin_def Let_def split: sum.splits if_splits
        dest: decodeURIComponent_error)

text \<open>Joining a root with the empty relative path never gives a path below the root.\<close>

lemma root_not_below_itself: "\<not> prefix (baseDir @ path_sep) (path_join [baseDir, []])"
proof (cases "baseDir = []")
  case True
  then show ?thesis by (simp add: path_join_def path_sep_def lit_def)
next
  case False
  then have "length (path_normalize baseDir) \<le> length baseDir"
    by (rule length_path_normalize)
  moreover have "path_join [baseDir, []] = path_normalize baseDir"
    using False by (simp add: path_join_def)
  ultimately show ?thesis
    by (auto simp: path_sep_def lit_def dest!: prefix_length_le)
qed

lemma safeJoin_of_slashes:
  assumes "decodeURIComponent (split_first 0x3F urlPath) = Inr decoded"
    and "list_all (\<lambda>c. c = 0x2F) (split_first 0x23 decoded)"
  shows "safeJoin baseDir urlPath = Inr None"
proof -
  have "strip_leading_slashes (split_first 0x23 decoded) = []"
    using assms(2) by (simp add: strip_leading_slashes_def list_all_iff)
  then show ?thesis
    using assms(1) root_not_below_itself [of baseDir] by (simp add: safeJoin_def)
qed

section \<open>Substrings, the boundary parameter and response codes\<close>

lemma find_sub_prefix: "prefix pat s \<Longrightarrow> find_sub pat s = Some 0"
  by (cases s) auto

lemma replace_first_prefix: "prefix pat s \<Longrightarrow> replace_first pat [] s = drop (length pat) s"
  by (simp add: replace_first_def find_sub_prefix)

lemma find_sub_None_Cons:
  "find_sub pat (c # cs) = None \<Longrightarrow> \<not> prefix pat (c # cs) \<and> find_sub pat cs = None"
  by (auto split: if_splits)

lemma match_boundary_needs_substring:
  "\<not> str_includes ct (lit ''boundary='') \<Longrightarrow> match_boundary ct = None"
proof (induction ct)
  case Nil
  show ?case by simp
next
  case (Cons c cs)
  from Cons.prems have n: "find_sub (lit ''boundary='') (c # cs) = None"
    by (simp add: str_includes_def)
  have "\<not> prefix (lit ''boundary='') (c # cs)" and "find_sub (lit ''boundary='') cs = None"
    using find_sub_None_Cons [OF n] by simp_all
  then show ?case using Cons.IH by (simp add: str_includes_def)
qed

lemma status_serveFile: "serveFile m fs p = Response r \<Longrightarrow> status r \<in> {200, 404, 500}"
  by (auto simp: serveFile_def send_def split: if_splits option.splits fs_node.splits)

lemma status_send [simp]: "status (send c t b) = c"
  by (simp add: send_def)


section \<open>The loop of \<open>splitBuffer\<close>\<close>

lemma find_sub_Some:
  "find_sub sep xs = Some i \<Longrightarrow> i + length sep \<le> length xs \<and> xs = take i xs @ sep @ drop (i + length sep) xs"
proof (induction xs arbitrary: i)
  case Nil
  then show ?case by (simp split: if_splits)
next
  case (Cons x xs)
  show ?case
  proof (cases "prefix sep (x # xs)")
    case True
    then obtain r where "x # xs = sep @ r" by (auto simp: prefix_def)
    moreover have "i = 0" using Cons.prems True by simp
    ultimately show ?thesis by (metis add_0 append_Nil append_eq_conv_conj le_add1 length_append take0)
  next
    case False
    then obtain j where j: "find_sub sep xs = Some j" "i = Suc j"
      using Cons.prems by auto
    from Cons.IH [OF j(1)] show ?thesis using j(2) by simp
  qed
qed

lemma count_sep_no_occurrence: "find_sub sep xs = None \<Longrightarrow> count_sep sep xs = 0"
  by (induction xs) (auto split: if_splits)

lemma count_sep_first_occurrence:
  "sep \<noteq> [] \<Longrightarrow> find_sub sep xs = Some i \<Longrightarrow>
   count_sep sep xs = Suc (count_sep sep (drop (i + length sep) xs))"
proof (induction xs arbitrary: i)
  case Nil
  then show ?case by simp
next
  case (Cons x xs)
  show ?case
  proof (cases "prefix sep (x # xs)")
    case True
    then have "i = 0" using Cons.prems by simp
    then show ?thesis using True Cons.prems(1) by simp
  next
    case False
    then obtain j where j: "find_sub sep xs = Some j" "i = Suc j"
      using Cons.prems by auto
    from Cons.IH [OF Cons.prems(1) j(1)] show ?thesis using j(2) False by simp
  qed
qed

lemma buf_slice_nat:
  "start \<le> e \<Longrightarrow> e \<le> length b \<Longrightarrow> buf_slice b (int start) (int e) = take (e - start) (drop start b)"
  by (auto simp: buf_slice_def Let_def min_def nat_diff_distrib')

lemma buf_slice_from_nat: "start \<le> length b \<Longrightarrow> buf_slice_from b (int start) = drop start b"
  by (simp add: buf_slice_from_def buf_slice_nat)

lemma join_with_Cons: "ps \<noteq> [] \<Longrightarrow> join_with sep (p # ps) = p @ sep @ join_with sep ps"
  by (cases ps) auto

lemma splitBuffer_loop_correct:
  assumes sep: "separator \<noteq> []"
  shows "start \<le> length buffer \<Longrightarrow>
         \<exists>ps. splitBuffer_loop buffer separator parts start (indexOf buffer separator start)
                 = Some (parts @ ps)
              \<and> length ps = Suc (count_sep separator (drop start buffer))
              \<and> join_with separator ps = drop start buffer"
proof (induction "length buffer - start" arbitrary: start parts rule: less_induct)
  case less
  define rest where "rest = drop start buffer"
  have idx: "indexOf buffer separator start = map_option (\<lambda>i. i + start) (find_sub separator rest)"
    using less.prems by (simp add: indexOf_def rest_def)
  show ?case
  proof (cases "find_sub separator rest")
    case None
    have "splitBuffer_loop buffer separator parts start (indexOf buffer separator start)
            = Some (parts @ [rest])"
      using None idx less.prems
      by (subst splitBuffer_loop.simps) (simp add: buf_slice_from_nat rest_def)
    moreover have "count_sep separator rest = 0"
      using None by (rule count_sep_no_occurrence)
    ultimately show ?thesis by (auto simp: rest_def)
  next
    case (Some i)
    have b: "i + length separator \<le> length rest"
      and r: "rest = take i rest @ separator @ drop (i + length separator) rest"
      using find_sub_Some [OF Some] by simp_all
    define start' where "start' = i + start + length separator"
    have le: "start' \<le> length buffer"
      using b less.prems by (simp add: rest_def start'_def)
    have dec: "length buffer - start' < length buffer - start"
      using le sep less.prems by (cases separator) (auto simp: start'_def)
    obtain ps where ps:
      "splitBuffer_loop buffer separator (parts @ [take i rest]) start'
         (indexOf buffer separator start') = Some ((parts @ [take i rest]) @ ps)"
      "length ps = Suc (count_sep separator (drop start' buffer))"
      "join_with separator ps = drop start' buffer"
      using less.hyps [OF dec le, of "parts @ [take i rest]"] by blast
    have dr: "drop start' buffer = drop (i + length separator) rest"
      by (simp add: rest_def start'_def add.commute add.left_commute)
    have sl: "buf_slice buffer (int start) (int (i + start)) = take i rest"
      using b less.prems buf_slice_nat [of start "i + start" buffer]
      by (simp add: rest_def)
    have "splitBuffer_loop buffer separator parts start (indexOf buffer separator start)
            = Some (parts @ take i rest # ps)"
      using Some idx ps(1) sl
      by (subst splitBuffer_loop.simps) (simp add: start'_def)
    moreover have "length (take i rest # ps) = Suc (count_sep separator rest)"
      using ps(2) dr count_sep_first_occurrence [OF sep Some] by simp
    moreover have "join_with separator (take i rest # ps) = rest"
    proof -
      have "ps \<noteq> []" using ps(2) by auto
      then have "join_with separator (take i rest # ps)
                   = take i rest @ separator @ drop (i + length separator) rest"
        using ps(3) dr by (simp add: join_with_Cons)
      then show ?thesis using r by simp
    qed
    ultimately show ?thesis unfolding rest_def by blast
  qed
qed

lemma splitBuffer_correct:
  assumes "separator \<noteq> []"
  shows "\<exists>parts. splitBuffer buffer separator = Some parts
           \<and> length parts = Suc (count_sep separator buffer)
           \<and> join_with separator parts = buffer"
  using splitBuffer_loop_correct [OF assms, of 0 buffer "[]"] by (simp add: splitBuffer_def)

text \<open>With an empty separator the loop of \<open>splitBuffer\<close> does not end.\<close>

lemma indexOf_empty: "start \<le> length buffer \<Longrightarrow> indexOf buffer [] start = Some start"
  by (cases "drop start buffer") (simp_all add: indexOf_def)

lemma splitBuffer_loop_empty_separator_aux:
  assumes "splitBuffer_loop buffer separator parts start index = Some y"
  shows "\<not> (separator = [] \<and> index = Some start \<and> start \<le> length buffer)"
proof (rule splitBuffer_loop.raw_induct
    [where P = "\<lambda>b s p st i y. \<not> (s = [] \<and> i = Some st \<and> st \<le> length b)", OF _ assms])
  fix f :: "buffer \<Rightarrow> buffer \<Rightarrow> buffer list \<Rightarrow> nat \<Rightarrow> nat option \<Rightarrow> buffer list option"
    and b s p st i y
  assume IH: "\<And>b s p st i y. f b s p st i = Some y
                \<Longrightarrow> \<not> (s = [] \<and> i = Some st \<and> st \<le> length b)"
    and step: "(case i of
          None \<Rightarrow> Some (p @ [buf_slice_from b (int st)])
          | Some j \<Rightarrow> f b s (p @ [buf_slice b (int st) (int j)]) (j + length s)
               (indexOf b s (j + length s))) = Some y"
  show "\<not> (s = [] \<and> i = Some st \<and> st \<le> length b)"
  proof
    assume a: "s = [] \<and> i = Some st \<and> st \<le> length b"
    then have "f b [] (p @ [buf_slice b (int st) (int st)]) st (Some st) = Some y"
      using step by (simp add: indexOf_empty)
    from IH [OF this] a show False by simp
  qed
qed

lemma splitBuffer_loop_empty_separator:
  "start \<le> length buffer \<Longrightarrow> splitBuffer_loop buffer [] parts start (Some start) = None"
  using splitBuffer_loop_empty_separator_aux [of buffer "[]" parts start "Some start"]
  by (cases "splitBuffer_loop buffer [] parts start (Some start)") auto

lemma splitBuffer_empty_separator: "splitBuffer buffer [] = None"
  by (simp add: splitBuffer_def indexOf_empty splitBuffer_loop_empty_separator)

lemma utf8_bytes_nonempty [simp]: "utf8_bytes v \<noteq> []"
  by (simp add: utf8_bytes_def)

lemma utf8_encode_nonempty: "s \<noteq> [] \<Longrightarrow> utf8_encode s \<noteq> []"
  by (induction s rule: utf8_encode.induct) auto

lemma parseMultipart_returns: "\<exists>parts. parseMultipart buffer boundary = Some parts"
proof -
  have "utf8_encode (lit ''--'' @ boundary) \<noteq> []"
    by (rule utf8_encode_nonempty) (simp add: lit_def)
  then obtain chunks where "splitBuffer buffer (utf8_encode (lit ''--'' @ boundary)) = Some chunks"
    using splitBuffer_correct by blast
  then show ?thesis by (simp add: parseMultipart_def)
qed


section \<open>Receiving the body\<close>

lemma receive_destroyed: "destroyed st \<Longrightarrow> receive st cs = st"
  by (cases cs) auto

lemma receive_within:
  "\<not> destroyed st \<Longrightarrow> totalBytes st + sum_list (map length cs) \<le> MAX_UPLOAD_BYTES \<Longrightarrow>
   receive st cs = st\<lparr>totalBytes := totalBytes st + sum_list (map length cs),
                      chunks := chunks st @ cs\<rparr>"
proof (induction cs arbitrary: st)
  case Nil
  show ?case by simp
next
  case (Cons c cs)
  have s: "on_data st c = st\<lparr>totalBytes := totalBytes st + length c, chunks := chunks st @ [c]\<rparr>"
    using Cons.prems by (simp add: on_data_def Let_def)
  have "receive (on_data st c) cs
          = (on_data st c)\<lparr>totalBytes := totalBytes (on_data st c) + sum_list (map length cs),
                            chunks := chunks (on_data st c) @ cs\<rparr>"
    using Cons.prems by (intro Cons.IH) (simp_all add: s)
  then show ?case using Cons.prems(1) by (simp add: s add.assoc)
qed

lemma receive_over:
  "\<not> destroyed st \<Longrightarrow> MAX_UPLOAD_BYTES < totalBytes st + sum_list (map length cs) \<Longrightarrow>
   totalBytes st \<le> MAX_UPLOAD_BYTES \<Longrightarrow>
   destroyed (receive st cs)
   \<and> responded (receive st cs) = Some (send 413 (lit ''text/plain'') (lit ''File too large''))"
proof (induction cs arbitrary: st)
  case Nil
  then show ?case by simp
next
  case (Cons c cs)
  show ?case
  proof (cases "MAX_UPLOAD_BYTES < totalBytes st + length c")
    case True
    then have "destroyed (on_data st c)"
      and "responded (on_data st c) = Some (send 413 (lit ''text/plain'') (lit ''File too large''))"
      by (simp_all add: on_data_def Let_def)
    then show ?thesis using Cons.prems(1) by (simp add: receive_destroyed)
  next
    case False
    then have s: "on_data st c
                    = st\<lparr>totalBytes := totalBytes st + length c, chunks := chunks st @ [c]\<rparr>"
      by (simp add: on_data_def Let_def)
    have "destroyed (receive (on_data st c) cs)
      \<and> responded (receive (on_data st c) cs)
          = Some (send 413 (lit ''text/plain'') (lit ''File too large''))"
      using Cons.prems False by (intro Cons.IH) (simp_all add: s)
    then show ?thesis using Cons.prems(1) by simp
  qed
qed

lemma destroyed_receive_iff:
  "destroyed (receive upload_init cs) \<longleftrightarrow> MAX_UPLOAD_BYTES < sum_list (map length cs)"
proof (cases "MAX_UPLOAD_BYTES < sum_list (map length cs)")
  case True
  then show ?thesis
    using receive_over [of upload_init cs] by (simp add: upload_init_def)
next
  case False
  then show ?thesis
    using receive_within [of upload_init cs] by (simp add: upload_init_def)
qed

lemma status_upload_parts:
  "upload_parts d now fs ps = (Returned r, fs') \<Longrightarrow> status r = 415 \<and> fs' = fs"
  by (induction ps) (auto simp: send_def Let_def split: part_action.splits if_splits)

lemma on_end_status:
  "\<exists>res fs'. on_end d now fs boundary st = Some (res, fs')
      \<and> (\<forall>r. res = Response r \<longrightarrow> status r \<in> {200, 400, 415})"
proof -
  obtain parts where p: "parseMultipart (concat (chunks st)) boundary = Some parts"
    using parseMultipart_returns by blast
  obtain ex fs' where u: "upload_parts d now fs parts = (ex, fs')"
    by (cases "upload_parts d now fs parts")
  show ?thesis
  proof (cases ex)
    case (Returned r)
    then show ?thesis using p u status_upload_parts [of d now fs parts r fs']
      by (simp add: on_end_def)
  next
    case (Threw err)
    then show ?thesis using p u by (simp add: on_end_def)
  next
    case (Saved f)
    then show ?thesis using p u
      by (cases "encodeURIComponent f") (simp_all add: on_end_def send_def)
  next
    case Finished
    then show ?thesis using p u by (simp add: on_end_def send_def)
  qed
qed


section \<open>The disposition pattern never yields the field \<open>file\<close> with a file name\<close>

lemma ci_prefix_iff: "ci_prefix p s \<longleftrightarrow> prefix (map ascii_upper p) (map ascii_upper s)"
  by (induction p s rule: ci_prefix.induct) auto

lemma length_takeWhile_ge:
  "n \<le> length (takeWhile P xs) \<longleftrightarrow> n \<le> length xs \<and> list_all P (take n xs)"
proof (induction xs arbitrary: n)
  case Nil
  show ?case by simp
next
  case (Cons x xs)
  show ?case by (cases n) (auto simp: Cons.IH)
qed

lemma line_terminator_upper [simp]:
  "is_line_terminator (ascii_upper c) = is_line_terminator c"
  by (auto simp: is_line_terminator_def ascii_upper_def diff_eq_eq)

lemma no_terminator_upper:
  "list_all (\<lambda>c. \<not> is_line_terminator c) (map ascii_upper s)
     = list_all (\<lambda>c. \<not> is_line_terminator c) s"
  by (induction s) auto

lemma try_dotstar_Some:
  "try_dotstar rest n = Some r \<Longrightarrow>
   \<exists>k \<le> n. match_name (drop k rest) = Some r
          \<and> (\<forall>j. k < j \<and> j \<le> n \<longrightarrow> match_name (drop j rest) = None)"
proof (induction n)
  case 0
  then show ?case by simp
next
  case (Suc n)
  show ?case
  proof (cases "match_name (drop (Suc n) rest)")
    case None
    then have "try_dotstar rest n = Some r" using Suc.prems by simp
    then obtain k where k: "k \<le> n" "match_name (drop k rest) = Some r"
      "\<forall>j. k < j \<and> j \<le> n \<longrightarrow> match_name (drop j rest) = None"
      using Suc.IH by blast
    have "\<forall>j. k < j \<and> j \<le> Suc n \<longrightarrow> match_name (drop j rest) = None"
      using k(3) None by (auto simp: le_Suc_eq)
    then show ?thesis using k(1,2) by (intro exI [of _ k]) simp
  next
    case (Some r')
    then have "r' = r" using Suc.prems by simp
    then show ?thesis using Some by (intro exI [of _ "Suc n"]) auto
  qed
qed

lemma quoted_Some:
  "quoted s = Some g \<Longrightarrow> \<exists>v. s = g @ 0x22 # v"
proof -
  assume q: "quoted s = Some g"
  then have g: "g = takeWhile (\<lambda>c. c \<noteq> 0x22) s" and l: "length g < length s"
    by (auto simp: quoted_def Let_def split: if_splits)
  have s: "s = g @ dropWhile (\<lambda>c. c \<noteq> 0x22) s" by (simp add: g)
  have ne: "dropWhile (\<lambda>c. c \<noteq> 0x22) s \<noteq> []"
  proof
    assume "dropWhile (\<lambda>c. c \<noteq> 0x22) s = []"
    with s have "s = g" by simp
    with l show False by simp
  qed
  then have "hd (dropWhile (\<lambda>c. c \<noteq> 0x22) s) = 0x22"
    using hd_dropWhile [of "\<lambda>c. c \<noteq> 0x22" s] by simp
  then obtain v where "dropWhile (\<lambda>c. c \<noteq> 0x22) s = 0x22 # v"
    using ne by (cases "dropWhile (\<lambda>c. c \<noteq> 0x22) s") auto
  with s show ?thesis by metis
qed


text \<open>
  When the pattern after \<open>.*\<close> matches with the name \<open>file\<close> and a file name, it also
  matches 17 characters further to the right, inside \<open>filename="..."\<close>, and no line
  terminator lies in between.
\<close>

lemma match_name_file_shift:
  assumes m: "match_name t = Some (lit ''file'', Some g2)"
  shows "17 \<le> length t \<and> list_all (\<lambda>c. \<not> is_line_terminator c) (take 17 t)
         \<and> match_name (drop 17 t) \<noteq> None"
proof -
  have p1: \<open>ci_prefix (lit ''name="'') t\<close>
    and q1: "quoted (drop 6 t) = Some (lit ''file'')"
    and mf: "match_filename (drop 11 t) = Some g2"
    using m by (auto simp: match_name_def lit_def split: if_splits option.splits)
  define v where "v = drop 11 t"
  have p2: \<open>ci_prefix (lit ''; filename="'') v\<close> and q2: "quoted (drop 12 v) = Some g2"
    using mf by (auto simp: match_filename_def v_def split: if_splits)
  obtain v' where d6: "drop 6 t = lit ''file'' @ 0x22 # v'"
    using quoted_Some [OF q1] by blast
  have l6: "6 \<le> length t"
    using p1 prefix_length_le [of \<open>map ascii_upper (lit ''name="'')\<close> "map ascii_upper t"]
    by (simp add: ci_prefix_iff lit_def)
  have t: "t = take 6 t @ lit ''file'' @ 0x22 # v"
  proof -
    have "drop 11 t = drop 5 (drop 6 t)" by simp
    then have "v = v'" using d6 by (simp add: v_def lit_def)
    then show ?thesis using d6 by (metis append_take_drop_id)
  qed
  have u1: \<open>map ascii_upper (take 6 t) = map ascii_upper (lit ''name="'')\<close>
  proof -
    obtain r where \<open>map ascii_upper t = map ascii_upper (lit ''name="'') @ r\<close>
      using p1 by (auto simp: ci_prefix_iff prefix_def)
    then have \<open>take 6 (map ascii_upper t) = map ascii_upper (lit ''name="'')\<close>
      by (simp add: lit_def)
    then show ?thesis by (simp add: take_map)
  qed
  obtain r2 where r2: \<open>map ascii_upper v = map ascii_upper (lit ''; filename="'') @ r2\<close>
    using p2 by (auto simp: ci_prefix_iff prefix_def)
  have l12: "12 \<le> length v"
    using arg_cong [OF r2, of length] by (simp add: lit_def)
  have u2: \<open>map ascii_upper (take 6 v) = map ascii_upper (lit ''; file'')\<close>
  proof -
    have \<open>take 6 (map ascii_upper v) = map ascii_upper (lit ''; file'')\<close>
      unfolding r2 by (simp add: lit_def)
    then show ?thesis by (simp add: take_map)
  qed
  have u3: \<open>prefix (map ascii_upper (lit ''name="'')) (map ascii_upper (drop 6 v))\<close>
  proof -
    have \<open>drop 6 (map ascii_upper v) = map ascii_upper (lit ''name="'') @ r2\<close>
      unfolding r2 by (simp add: lit_def)
    then show ?thesis by (simp add: drop_map prefix_def)
  qed
  have len: "17 \<le> length t"
    using arg_cong [OF t, of length] l6 l12 by (simp add: lit_def)
  have t17: "take 17 t = take 6 t @ lit ''file'' @ 0x22 # take 6 v"
    using arg_cong [OF t, of "take 17"] l6 by (simp add: lit_def)
  have d17: "drop 17 t = drop 6 v"
    using arg_cong [OF t, of "drop 17"] l6 by (simp add: lit_def)
  have "list_all (\<lambda>c. \<not> is_line_terminator c) (map ascii_upper (take 17 t))"
    unfolding t17 using u1 u2
    by (simp add: lit_def is_line_terminator_def ascii_upper_def)
  then have nt: "list_all (\<lambda>c. \<not> is_line_terminator c) (take 17 t)"
    by (simp only: no_terminator_upper)
  have "quoted (drop 6 (drop 6 v)) = Some g2" using q2 by simp
  then have "match_name (drop 6 v) \<noteq> None"
    using u3 by (simp add: match_name_def ci_prefix_iff)
  then show ?thesis using len nt d17 by simp
qed

lemma try_dotstar_never_file:
  assumes "try_dotstar rest (length (takeWhile (\<lambda>c. \<not> is_line_terminator c) rest))
             = Some (g1, Some g2)"
  shows "g1 \<noteq> lit ''file''"
proof
  assume f: "g1 = lit ''file''"
  define n where "n = length (takeWhile (\<lambda>c. \<not> is_line_terminator c) rest)"
  obtain k where k: "k \<le> n" "match_name (drop k rest) = Some (lit ''file'', Some g2)"
    "\<forall>j. k < j \<and> j \<le> n \<longrightarrow> match_name (drop j rest) = None"
    using try_dotstar_Some [OF assms] f unfolding n_def by blast
  have s: "17 \<le> length (drop k rest)"
    "list_all (\<lambda>c. \<not> is_line_terminator c) (take 17 (drop k rest))"
    "match_name (drop 17 (drop k rest)) \<noteq> None"
    using match_name_file_shift [OF k(2)] by simp_all
  have kn: "k \<le> length rest \<and> list_all (\<lambda>c. \<not> is_line_terminator c) (take k rest)"
    using k(1) unfolding n_def by (simp add: length_takeWhile_ge)
  have "take (k + 17) rest = take k rest @ take 17 (drop k rest)"
    by (simp add: take_add)
  then have "list_all (\<lambda>c. \<not> is_line_terminator c) (take (k + 17) rest)"
    using kn s(2) by simp
  moreover have "k + 17 \<le> length rest" using s(1) kn by simp
  ultimately have "k + 17 \<le> n"
    unfolding n_def by (simp add: length_takeWhile_ge)
  then have "match_name (drop (k + 17) rest) = None" using k(3) by simp
  then show False using s(3) by (simp add: add.commute)
qed

lemma match_disposition_never_file:
  "match_disposition h = Some (g1, Some g2) \<Longrightarrow> g1 \<noteq> lit ''file''"
proof (induction h)
  case Nil
  then show ?case by simp
next
  case (Cons c cs)
  show ?case
  proof (cases "match_disposition_at (c # cs)")
    case None
    then show ?thesis using Cons by simp
  next
    case (Some r)
    then have "match_disposition_at (c # cs) = Some (g1, Some g2)"
      using Cons.prems by simp
    then show ?thesis
      using try_dotstar_never_file [of "drop 20 (c # cs)" g1 g2]
      by (simp add: match_disposition_at_def split: if_splits)
  qed
qed

text \<open>No part is ever stored or rejected for its extension: every part is skipped.\<close>

lemma process_part_skips: "process_part part = Skip"
proof (cases "indexOf part [0x0D, 0x0A, 0x0D, 0x0A] 0")
  case None
  then show ?thesis by (simp add: process_part_def)
next
  case (Some headerEnd)
  show ?thesis
  proof (cases "match_disposition (toString (buf_slice part 0 (int headerEnd)))")
    case None
    then show ?thesis using Some by (simp add: process_part_def)
  next
    case m: (Some r)
    obtain g1 g2 where r: "r = (g1, g2)" by (cases r)
    show ?thesis
    proof (cases g2)
      case None
      then show ?thesis using Some m r by (simp add: process_part_def)
    next
      case g: (Some name)
      have "g1 \<noteq> lit ''file''"
        using match_disposition_never_file m r g by simp
      then show ?thesis using Some m r g by (simp add: process_part_def)
    qed
  qed
qed

lemma upload_parts_finishes: "upload_parts d now fs parts = (Finished, fs)"
  by (induction parts) (simp_all add: process_part_skips)

lemma on_end_no_file:
  "on_end d now fs boundary st
     = Some (Response (send 400 (lit ''text/plain'') (lit ''No file uploaded'')), fs)"
proof -
  obtain parts where "parseMultipart (concat (chunks st)) boundary = Some parts"
    using parseMultipart_returns by blast
  then show ?thesis by (simp add: on_end_def upload_parts_finishes)
qed

section \<open>Every completed upload is answered with "No file uploaded"\<close>

lemma handleUpload_no_file:
  assumes "handleUpload_start (req_headers req) = Listening boundary"
    and "sum_list (map length (req_chunks req)) \<le> MAX_UPLOAD_BYTES"
    and "req_ending req = Ended"
  shows "handleUpload d now fs req
           = Some (Response (send 400 (lit ''text/plain'') (lit ''No file uploaded'')), fs)"
proof -
  have "responded (receive upload_init (req_chunks req)) = None"
    using receive_within [of upload_init "req_chunks req"] assms(2)
    by (simp add: upload_init_def)
  then show ?thesis
    using assms(1,3) by (simp add: handleUpload_def on_end_no_file)
qed

text \<open>
  The outcomes of \<open>handleUpload\<close>: 400, 413 or 500, and the file system as it was. The
  responses 200 and 415 of the \<open>end\<close> handler are never sent.
\<close>

lemma handleUpload_outcomes:
  "\<exists>r. handleUpload d now fs req = Some (Response r, fs) \<and> status r \<in> {400, 413, 500}"
proof (cases "handleUpload_start (req_headers req)")
  case (Responded r)
  then have "status r = 400"
    by (auto simp: handleUpload_start_def Let_def split: if_splits option.splits)
  then show ?thesis using Responded by (simp add: handleUpload_def)
next
  case (Listening boundary)
  show ?thesis
  proof (cases "MAX_UPLOAD_BYTES < sum_list (map length (req_chunks req))")
    case True
    then have "responded (receive upload_init (req_chunks req))
                 = Some (send 413 (lit ''text/plain'') (lit ''File too large''))"
      using receive_over [of upload_init "req_chunks req"] by (simp add: upload_init_def)
    then show ?thesis using Listening by (simp add: handleUpload_def)
  next
    case False
    then have n: "responded (receive upload_init (req_chunks req)) = None"
      using receive_within [of upload_init "req_chunks req"] by (simp add: upload_init_def)
    show ?thesis
      using Listening n
      by (cases "req_ending req") (simp_all add: handleUpload_def on_end_no_file)
  qed
qed

lemma length_filler [simp]: "length (filler n) = n"
  by (simp add: filler_def)

lemma start_multipart_xyz:
  "handleUpload_start (req_headers (post_upload multipart_xyz cs)) = Listening (lit ''XYZ'')"
proof -
  have "str_includes multipart_xyz (lit ''multipart/form-data'')" by code_simp
  moreover have "match_boundary multipart_xyz = Some (lit ''XYZ'')" by code_simp
  ultimately show ?thesis by (simp add: handleUpload_start_def post_upload_def)
qed

lemma server_post_upload:
  "server e now fs (post_upload ct cs) = handleUpload (UPLOAD_DIR e) now fs (post_upload ct cs)"
  by (simp add: server_def post_upload_def)

lemma post_upload_simps [simp]:
  "req_chunks (post_upload ct cs) = cs" "req_ending (post_upload ct cs) = Ended"
  by (simp_all add: post_upload_def)


section \<open>FileResponder: a stored name with a fragment character\<close>

text \<open>
  \<open>safeJoin\<close> cuts the path at \<open>#\<close> after it has decoded the percent escapes. The link
  that \<open>handleUpload\<close> would print for a stored name containing \<open>#\<close> therefore resolves
  to a shorter path than the one the file was written to.
\<close>

lemma link_with_hash_resolves_elsewhere:
  "encodeURIComponent (lit ''1-a#b.txt'') = Inr (lit ''1-a%23b.txt'')
   \<and> path_join [UPLOAD_DIR example_env, lit ''1-a#b.txt''] = lit ''/srv/app/uploads/1-a#b.txt''
   \<and> safeJoin (UPLOAD_DIR example_env) (lit ''1-a%23b.txt'')
       = Inr (Some (lit ''/srv/app/uploads/1-a''))"
  by code_simp

lemma link_with_hash_not_found:
  "server example_env 0 [lit ''/srv/app/uploads/1-a#b.txt'' \<mapsto> File d]
     (get_request (lit ''/uploads/1-a%23b.txt''))
   = Some (Response (send 404 (lit ''text/html'') (lit ''<h1>404 - File Not Found</h1>'')),
           [lit ''/srv/app/uploads/1-a#b.txt'' \<mapsto> File d])"
proof -
  have r: "replace_first (lit ''/uploads/'') [] (lit ''/uploads/1-a%23b.txt'' :: jsstring)
             = lit ''1-a%23b.txt''"
    by code_simp
  have p: "prefix (lit ''/uploads/'') (lit ''/uploads/1-a%23b.txt'' :: jsstring)"
    by code_simp
  have n: "(lit ''/srv/app/uploads/1-a'' :: jsstring) \<noteq> lit ''/srv/app/uploads/1-a#b.txt''"
    by (simp add: lit_def)
  show ?thesis
    using link_with_hash_resolves_elsewhere r p n
    by (simp add: server_def get_request_def serve_resolved_def serveFile_def has_nul_def
          lit_def)
qed

section \<open>PathResolver: containment\<close>

text \<open>
  Claim C1, as the code has it. \<open>safeJoin\<close> has three outcomes: it throws \<open>URIError\<close>
  when the part of the URL before \<open>?\<close> is not validly percent-encoded, it returns
  \<open>null\<close>, or it returns a path that starts with the root directory followed by the
  separator (so the path is absolute when the root is). Whatever the raw URL contains,
  \<open>..\<close> segments, encoded separators or redundant slashes, no other path is returned;
  and below an absolute root the returned path has no \<open>..\<close> segment left that could
  lead out of the root again.
\<close>

theorem safeJoin_confined:
  "safeJoin baseDir urlPath = Inl URIError \<or>
   safeJoin baseDir urlPath = Inr None \<or>
   (\<exists>p. safeJoin baseDir urlPath = Inr (Some p) \<and> prefix (baseDir @ path_sep) p
        \<and> length baseDir < length p \<and> hd p = hd (baseDir @ path_sep)
        \<and> (prefix path_sep baseDir \<longrightarrow> lit ''..'' \<notin> set (split_on 0x2F p)))"
proof (cases "decodeURIComponent (split_first 0x3F urlPath)")
  case (Inl e)
  then have "e = URIError" by (rule decodeURIComponent_error)
  with Inl show ?thesis by (simp add: safeJoin_def)
next
  case (Inr decoded)
  define p where
    "p = path_join [baseDir, strip_leading_slashes (split_first 0x23 decoded)]"
  show ?thesis
  proof (cases "prefix (baseDir @ path_sep) p")
    case True
    then obtain r where r: "p = (baseDir @ path_sep) @ r"
      by (auto simp: prefix_def)
    have "length baseDir < length p"
      using r by (simp add: path_sep_def lit_def)
    moreover have "hd p = hd (baseDir @ path_sep)"
      using r by (cases baseDir) (simp_all add: path_sep_def lit_def)
    moreover have "prefix path_sep baseDir \<longrightarrow> lit ''..'' \<notin> set (split_on 0x2F p)"
      unfolding p_def by (intro impI path_join_absolute_no_dotdot)
    ultimately show ?thesis
      using Inr True by (simp add: safeJoin_def p_def)
  next
    case False
    then show ?thesis using Inr by (simp add: safeJoin_def p_def)
  qed
qed

text \<open>
  An instance of C1: a traversal attempt with encoded dots is rejected, and a plain file
  name is resolved below the root.
\<close>

theorem safeJoin_confined_witness:
  "safeJoin (lit ''/srv/public'') (lit ''/%2e%2e/%2e%2e/etc/passwd'') = Inr None
   \<and> prefix path_sep (lit ''/srv/public'')
   \<and> (\<exists>p. safeJoin (lit ''/srv/public'') (lit ''/a%20b.txt'') = Inr (Some p)
          \<and> prefix (lit ''/srv/public'' @ path_sep) p
          \<and> lit ''..'' \<notin> set (split_on 0x2F p))"
proof -
  have "safeJoin (lit ''/srv/public'') (lit ''/%2e%2e/%2e%2e/etc/passwd'') = Inr None"
    by code_simp
  moreover have "prefix path_sep (lit ''/srv/public'')"
    by (simp add: path_sep_def lit_def)
  moreover have "safeJoin (lit ''/srv/public'') (lit ''/a%20b.txt'') \<noteq> Inl URIError"
    by code_simp
  moreover have "safeJoin (lit ''/srv/public'') (lit ''/a%20b.txt'') \<noteq> Inr None"
    by code_simp
  ultimately show ?thesis
    using safeJoin_confined [of "lit ''/srv/public''" "lit ''/a%20b.txt''"] by blast
qed

text \<open>
  C1 as stated fails: for a URL with a malformed percent escape \<open>safeJoin\<close> returns
  neither \<open>null\<close> nor a path, it throws.
\<close>

theorem safeJoin_throws_counterexample:
  "safeJoin (lit ''/srv/public'') (lit ''/%'') = Inl URIError"
  by code_simp

section \<open>PathResolver: the root itself\<close>

text \<open>
  Claim C4, as the code has it. When the URL path, after the query string and the
  fragment are cut off and the percent escapes are decoded, is empty or consists of
  slashes only, \<open>safeJoin\<close> joins the root with the empty path; the result does not
  start with the root followed by the separator, and \<open>safeJoin\<close> returns \<open>null\<close>.
\<close>

theorem safeJoin_root_rejected:
  assumes "decodeURIComponent (split_first 0x3F urlPath) = Inr decoded"
    and "list_all (\<lambda>c. c = 0x2F) (split_first 0x23 decoded)"
  shows "safeJoin baseDir urlPath = Inr None"
  using assms by (rule safeJoin_of_slashes)

theorem safeJoin_root_rejected_witness:
  "decodeURIComponent (split_first 0x3F (lit ''//?x=1'')) = Inr (lit ''//'')
   \<and> list_all (\<lambda>c. c = 0x2F) (split_first 0x23 (lit ''//'' :: jsstring))
   \<and> safeJoin (lit ''/srv/public'') (lit ''//?x=1'') = Inr None"
proof -
  have d: "decodeURIComponent (split_first 0x3F (lit ''//?x=1'')) = Inr (lit ''//'')"
    by code_simp
  have s: "list_all (\<lambda>c. c = 0x2F) (split_first 0x23 (lit ''//'' :: jsstring))"
    by code_simp
  show ?thesis
    using d s safeJoin_root_rejected [OF d s, of "lit ''/srv/public''"] by simp
qed

text \<open>
  C4 as stated fails: for the path \<open>/\<close> the result is the rejected value, not a resolved
  path.
\<close>

theorem safeJoin_root_counterexample:
  "safeJoin (lit ''/srv/public'') (lit ''/'') = Inr None"
  by code_simp

section \<open>RequestRouter: one branch per request\<close>

text \<open>
  Claim C8. Method and URL select exactly one of five branches. \<open>POST /upload\<close> is
  handled by \<open>handleUpload\<close>; any other request whose method is neither \<open>GET\<close> nor
  \<open>HEAD\<close> gets 405; for \<open>GET\<close> and \<open>HEAD\<close>, the URLs \<open>/\<close> and \<open>/index.html\<close> serve
  \<open>index.html\<close> from the public root, a URL that starts with \<open>/uploads/\<close> is resolved,
  without that prefix, against the upload root, and every other URL is resolved against
  the public root. In both resolving branches a rejected resolution gives 403, an
  exception of the resolution is not caught, and a resolved path is served. Serving a
  path means: 200 with the bytes of the file and the looked-up content type, 404 when the
  file does not exist, 500 with the error code when the read fails otherwise, and the
  uncaught exception of \<open>fs.readFile\<close> when the path contains a NUL character.
\<close>

theorem server_selects_one_branch:
  "(select_branch req = UploadBranch
      \<longleftrightarrow> req_method req = lit ''POST'' \<and> req_url req = lit ''/upload'')
   \<and> (select_branch req = MethodNotAllowed
      \<longleftrightarrow> \<not> (req_method req = lit ''POST'' \<and> req_url req = lit ''/upload'')
          \<and> req_method req \<noteq> lit ''GET'' \<and> req_method req \<noteq> lit ''HEAD'')
   \<and> (select_branch req = IndexBranch
      \<longleftrightarrow> (req_method req = lit ''GET'' \<or> req_method req = lit ''HEAD'')
          \<and> (req_url req = lit ''/'' \<or> req_url req = lit ''/index.html''))
   \<and> (select_branch req = UploadsBranch
      \<longleftrightarrow> (req_method req = lit ''GET'' \<or> req_method req = lit ''HEAD'')
          \<and> prefix (lit ''/uploads/'') (req_url req))
   \<and> (select_branch req = PublicBranch
      \<longleftrightarrow> (req_method req = lit ''GET'' \<or> req_method req = lit ''HEAD'')
          \<and> req_url req \<noteq> lit ''/'' \<and> req_url req \<noteq> lit ''/index.html''
          \<and> \<not> prefix (lit ''/uploads/'') (req_url req))
   \<and> server e now fs req =
     (case select_branch req of
        UploadBranch \<Rightarrow> handleUpload (UPLOAD_DIR e) now fs req
      | MethodNotAllowed \<Rightarrow>
          Some (Response (send 405 (lit ''text/plain'') (lit ''Method Not Allowed'')), fs)
      | IndexBranch \<Rightarrow>
          Some (serveFile (mime_lookup e) fs (path_join [PUBLIC_DIR e, lit ''index.html'']), fs)
      | UploadsBranch \<Rightarrow>
          Some (serve_resolved e fs (safeJoin (UPLOAD_DIR e) (drop 9 (req_url req))), fs)
      | PublicBranch \<Rightarrow>
          Some (serve_resolved e fs (safeJoin (PUBLIC_DIR e) (req_url req)), fs))
   \<and> serve_resolved e fs (Inr None)
       = Response (send 403 (lit ''text/plain'') (lit ''Forbidden''))
   \<and> serve_resolved e fs (Inl err) = Uncaught err
   \<and> serve_resolved e fs (Inr (Some p)) = serveFile (mime_lookup e) fs p
   \<and> (has_nul p \<longrightarrow> serveFile m fs p = Uncaught ERR_INVALID_ARG_VALUE)
   \<and> (\<not> has_nul p \<and> fs p = Some (File content) \<longrightarrow>
         serveFile m fs p
           = Response \<lparr>status = 200,
                       content_type = (case m p of Some t \<Rightarrow> t
                                       | None \<Rightarrow> lit ''application/octet-stream''),
                       body = content\<rparr>)
   \<and> (\<not> has_nul p \<and> fs p = None \<longrightarrow>
         serveFile m fs p
           = Response (send 404 (lit ''text/html'') (lit ''<h1>404 - File Not Found</h1>'')))
   \<and> (\<not> has_nul p \<and> fs p = Some (Unreadable code) \<longrightarrow>
         serveFile m fs p
           = Response (send 500 (lit ''text/plain'') (lit ''Server Error: '' @ code)))"
proof -
  have d: "prefix (lit ''/uploads/'') (req_url req) \<Longrightarrow>
        replace_first (lit ''/uploads/'') [] (req_url req) = drop 9 (req_url req)"
  proof -
    assume p: "prefix (lit ''/uploads/'') (req_url req)"
    have "length (lit ''/uploads/'' :: jsstring) = 9" by (simp add: lit_def)
    then show ?thesis using replace_first_prefix [OF p] by simp
  qed
  have n1: "\<not> prefix (lit ''/uploads/'') (lit ''/'' :: jsstring)"
    and n2: "\<not> prefix (lit ''/uploads/'') (lit ''/index.html'' :: jsstring)"
    and n3: "(lit ''POST'' :: jsstring) \<noteq> lit ''GET''"
    and n4: "(lit ''POST'' :: jsstring) \<noteq> lit ''HEAD''"
    by (simp_all add: lit_def)
  have b: "(select_branch req = UploadBranch
      \<longleftrightarrow> req_method req = lit ''POST'' \<and> req_url req = lit ''/upload'')
   \<and> (select_branch req = MethodNotAllowed
      \<longleftrightarrow> \<not> (req_method req = lit ''POST'' \<and> req_url req = lit ''/upload'')
          \<and> req_method req \<noteq> lit ''GET'' \<and> req_method req \<noteq> lit ''HEAD'')
   \<and> (select_branch req = IndexBranch
      \<longleftrightarrow> (req_method req = lit ''GET'' \<or> req_method req = lit ''HEAD'')
          \<and> (req_url req = lit ''/'' \<or> req_url req = lit ''/index.html''))
   \<and> (select_branch req = UploadsBranch
      \<longleftrightarrow> (req_method req = lit ''GET'' \<or> req_method req = lit ''HEAD'')
          \<and> prefix (lit ''/uploads/'') (req_url req))
   \<and> (select_branch req = PublicBranch
      \<longleftrightarrow> (req_method req = lit ''GET'' \<or> req_method req = lit ''HEAD'')
          \<and> req_url req \<noteq> lit ''/'' \<and> req_url req \<noteq> lit ''/index.html''
          \<and> \<not> prefix (lit ''/uploads/'') (req_url req))"
    using n1 n2 n3 n4 unfolding select_branch_def by auto
  have s: "server e now fs req =
     (case select_branch req of
        UploadBranch \<Rightarrow> handleUpload (UPLOAD_DIR e) now fs req
      | MethodNotAllowed \<Rightarrow>
          Some (Response (send 405 (lit ''text/plain'') (lit ''Method Not Allowed'')), fs)
      | IndexBranch \<Rightarrow>
          Some (serveFile (mime_lookup e) fs (path_join [PUBLIC_DIR e, lit ''index.html'']), fs)
      | UploadsBranch \<Rightarrow>
          Some (serve_resolved e fs (safeJoin (UPLOAD_DIR e) (drop 9 (req_url req))), fs)
      | PublicBranch \<Rightarrow>
          Some (serve_resolved e fs (safeJoin (PUBLIC_DIR e) (req_url req)), fs))"
    using d by (simp add: server_def select_branch_def)
  have r: "serve_resolved e fs (Inr None)
             = Response (send 403 (lit ''text/plain'') (lit ''Forbidden''))"
    "serve_resolved e fs (Inl err) = Uncaught err"
    "serve_resolved e fs (Inr (Some p)) = serveFile (mime_lookup e) fs p"
    by (simp_all add: serve_resolved_def)
  have f: "has_nul p \<longrightarrow> serveFile m fs p = Uncaught ERR_INVALID_ARG_VALUE"
    "\<not> has_nul p \<and> fs p = Some (File content) \<longrightarrow>
         serveFile m fs p
           = Response \<lparr>status = 200,
                       content_type = (case m p of Some t \<Rightarrow> t
                                       | None \<Rightarrow> lit ''application/octet-stream''),
                       body = content\<rparr>"
    "\<not> has_nul p \<and> fs p = None \<longrightarrow>
         serveFile m fs p
           = Response (send 404 (lit ''text/html'') (lit ''<h1>404 - File Not Found</h1>''))"
    "\<not> has_nul p \<and> fs p = Some (Unreadable code) \<longrightarrow>
         serveFile m fs p
           = Response (send 500 (lit ''text/plain'') (lit ''Server Error: '' @ code))"
    by (simp_all add: serveFile_def)
  show ?thesis
    using b s r f by (intro conjI) (simp_all only:)
qed

text \<open>
  Instances of C8 in a deployment with an index document and one uploaded file: the index
  and the uploaded file are served with their bytes, the upload root itself is refused, a
  missing file gives 404, and a URL with an encoded NUL character ends in the exception of
  \<open>fs.readFile\<close>.
\<close>

theorem server_selects_one_branch_witness:
  "server example_env 0 sample_fs (get_request (lit ''/''))
     = Some (Response \<lparr>status = 200, content_type = lit ''application/octet-stream'',
                        body = lit ''<h1>Files</h1>''\<rparr>, sample_fs)
   \<and> server example_env 0 sample_fs (get_request (lit ''/uploads/1-a.txt''))
     = Some (Response \<lparr>status = 200, content_type = lit ''application/octet-stream'',
                        body = lit ''first''\<rparr>, sample_fs)
   \<and> server example_env 0 sample_fs (get_request (lit ''/uploads/''))
     = Some (Response (send 403 (lit ''text/plain'') (lit ''Forbidden'')), sample_fs)
   \<and> server example_env 0 sample_fs (get_request (lit ''/missing.html''))
     = Some (Response (send 404 (lit ''text/html'') (lit ''<h1>404 - File Not Found</h1>'')),
             sample_fs)
   \<and> server example_env 0 sample_fs (get_request (lit ''/a%00b''))
     = Some (Uncaught ERR_INVALID_ARG_VALUE, sample_fs)"
proof -
  have m: "mime_lookup example_env = (\<lambda>_. None)"
    by (simp add: example_env_def)
  have g: "req_method (get_request u) = lit ''GET''" "req_url (get_request u) = u" for u
    by (simp_all add: get_request_def)
  have i1: "path_join [PUBLIC_DIR example_env, lit ''index.html'']
              = lit ''/srv/app/public/index.html''"
    by code_simp
  have i2: "\<not> has_nul (lit ''/srv/app/public/index.html'')"
    by code_simp
  have i3: "sample_fs (lit ''/srv/app/public/index.html'') = Some (File (lit ''<h1>Files</h1>''))"
    by (simp add: sample_fs_def lit_def)
  have a: "server example_env 0 sample_fs (get_request (lit ''/''))
     = Some (Response \<lparr>status = 200, content_type = lit ''application/octet-stream'',
                        body = lit ''<h1>Files</h1>''\<rparr>, sample_fs)"
    using server_selects_one_branch [where req = "get_request (lit ''/'')" and e = example_env
        and now = 0 and fs = sample_fs and m = "mime_lookup example_env"
        and p = "lit ''/srv/app/public/index.html''" and content = "lit ''<h1>Files</h1>''"]
      i1 i2 i3
    by (simp add: g m)
  have u0: "prefix (lit ''/uploads/'') (lit ''/uploads/1-a.txt'' :: jsstring)"
    by code_simp
  have u1: "safeJoin (UPLOAD_DIR example_env) (drop 9 (lit ''/uploads/1-a.txt''))
              = Inr (Some (lit ''/srv/app/uploads/1-a.txt''))"
    by code_simp
  have u2: "\<not> has_nul (lit ''/srv/app/uploads/1-a.txt'')"
    by code_simp
  have u3: "sample_fs (lit ''/srv/app/uploads/1-a.txt'') = Some (File (lit ''first''))"
    by (simp add: sample_fs_def lit_def)
  have b: "server example_env 0 sample_fs (get_request (lit ''/uploads/1-a.txt''))
     = Some (Response \<lparr>status = 200, content_type = lit ''application/octet-stream'',
                        body = lit ''first''\<rparr>, sample_fs)"
    using server_selects_one_branch [where req = "get_request (lit ''/uploads/1-a.txt'')"
        and e = example_env and now = 0 and fs = sample_fs and m = "mime_lookup example_env"
        and p = "lit ''/srv/app/uploads/1-a.txt''" and content = "lit ''first''"]
      u0 u1 u2 u3
    by (simp add: g m)
  have r0: "prefix (lit ''/uploads/'') (lit ''/uploads/'' :: jsstring)"
    by simp
  have r1: "safeJoin (UPLOAD_DIR example_env) (drop 9 (lit ''/uploads/'')) = Inr None"
    by code_simp
  have c: "server example_env 0 sample_fs (get_request (lit ''/uploads/''))
     = Some (Response (send 403 (lit ''text/plain'') (lit ''Forbidden'')), sample_fs)"
    using server_selects_one_branch [where req = "get_request (lit ''/uploads/'')"
        and e = example_env and now = 0 and fs = sample_fs]
      r0 r1
    by (simp add: g)
  have p0: "(lit ''/missing.html'' :: jsstring) \<noteq> lit ''/''"
    "(lit ''/missing.html'' :: jsstring) \<noteq> lit ''/index.html''"
    "\<not> prefix (lit ''/uploads/'') (lit ''/missing.html'' :: jsstring)"
    by (simp_all add: lit_def)
  have p1: "safeJoin (PUBLIC_DIR example_env) (lit ''/missing.html'')
              = Inr (Some (lit ''/srv/app/public/missing.html''))"
    by code_simp
  have p2: "\<not> has_nul (lit ''/srv/app/public/missing.html'')"
    by code_simp
  have p3: "sample_fs (lit ''/srv/app/public/missing.html'') = None"
    by (simp add: sample_fs_def lit_def)
  have d: "server example_env 0 sample_fs (get_request (lit ''/missing.html''))
     = Some (Response (send 404 (lit ''text/html'') (lit ''<h1>404 - File Not Found</h1>'')),
             sample_fs)"
    using server_selects_one_branch [where req = "get_request (lit ''/missing.html'')"
        and e = example_env and now = 0 and fs = sample_fs and m = "mime_lookup example_env"
        and p = "lit ''/srv/app/public/missing.html''"]
      p0 p1 p2 p3
    by (simp add: g)
  have z0: "(lit ''/a%00b'' :: jsstring) \<noteq> lit ''/''"
    "(lit ''/a%00b'' :: jsstring) \<noteq> lit ''/index.html''"
    "\<not> prefix (lit ''/uploads/'') (lit ''/a%00b'' :: jsstring)"
    by (simp_all add: lit_def)
  have z1: "safeJoin (PUBLIC_DIR example_env) (lit ''/a%00b'')
              = Inr (Some (lit ''/srv/app/public/a'' @ [0] @ lit ''b''))"
    by code_simp
  have z2: "has_nul (lit ''/srv/app/public/a'' @ [0] @ lit ''b'')"
    by code_simp
  have e: "server example_env 0 sample_fs (get_request (lit ''/a%00b''))
     = Some (Uncaught ERR_INVALID_ARG_VALUE, sample_fs)"
    using server_selects_one_branch [where req = "get_request (lit ''/a%00b'')"
        and e = example_env and now = 0 and fs = sample_fs and m = "mime_lookup example_env"
        and p = "lit ''/srv/app/public/a'' @ [0] @ lit ''b''"]
      z0 z1 z2
    by (simp add: g)
  show ?thesis using a b c d e by (intro conjI)
qed

section \<open>RequestRouter: a query string on the root URL\<close>

text \<open>
  Claim C10. The index branch compares the raw URL with \<open>/\<close> and \<open>/index.html\<close>, so a
  \<open>GET\<close> of \<open>/\<close> followed by a query string does not serve the index: it reaches
  \<open>safeJoin\<close> with the public root, the stripped path resolves to the root itself, which
  is rejected, and the response is 403.
\<close>

theorem query_on_root_forbidden:
  assumes m: "req_method req = lit ''GET''" and u: "req_url req = lit ''/?'' @ q"
  shows "safeJoin (PUBLIC_DIR e) (req_url req) = Inr None
    \<and> server e now fs req
        = Some (Response (send 403 (lit ''text/plain'') (lit ''Forbidden'')), fs)
    \<and> server e now fs req
        \<noteq> Some (serveFile (mime_lookup e) fs
                  (path_join [PUBLIC_DIR e, lit ''index.html'']), fs)"
proof -
  have d: "decodeURIComponent (split_first 0x3F (req_url req)) = Inr (lit ''/'')"
    using u by (simp add: split_first_def lit_def)
  have s: "list_all (\<lambda>c. c = 0x2F) (split_first 0x23 (lit ''/'' :: jsstring))"
    by (simp add: split_first_def lit_def)
  have j: "safeJoin (PUBLIC_DIR e) (req_url req) = Inr None"
    using d s by (rule safeJoin_of_slashes)
  have r: "server e now fs req
        = Some (Response (send 403 (lit ''text/plain'') (lit ''Forbidden'')), fs)"
    using m u j by (simp add: server_def serve_resolved_def lit_def)
  have "serveFile (mime_lookup e) fs (path_join [PUBLIC_DIR e, lit ''index.html''])
          \<noteq> Response (send 403 (lit ''text/plain'') (lit ''Forbidden''))"
  proof
    assume "serveFile (mime_lookup e) fs (path_join [PUBLIC_DIR e, lit ''index.html''])
              = Response (send 403 (lit ''text/plain'') (lit ''Forbidden''))"
    from status_serveFile [OF this] show False by simp
  qed
  with j r show ?thesis by auto
qed

theorem query_on_root_forbidden_witness:
  "req_method (get_request (lit ''/?x=1'')) = lit ''GET''
   \<and> req_url (get_request (lit ''/?x=1'')) = lit ''/?'' @ lit ''x=1''
   \<and> server example_env 0 Map.empty (get_request (lit ''/?x=1''))
     = Some (Response (send 403 (lit ''text/plain'') (lit ''Forbidden'')), Map.empty)"
proof -
  have m: "req_method (get_request (lit ''/?x=1'')) = lit ''GET''"
    by (simp add: get_request_def)
  have u: "req_url (get_request (lit ''/?x=1'')) = lit ''/?'' @ lit ''x=1''"
    by (simp add: get_request_def lit_def)
  show ?thesis
    using m u query_on_root_forbidden [OF m u, of example_env 0 Map.empty] by simp
qed

section \<open>UploadValidator: a missing boundary\<close>

text \<open>
  Claim C7. When the \<open>Content-Type\<close> of an upload contains \<open>multipart/form-data\<close> but no
  \<open>boundary=\<close>, \<open>handleUpload\<close> answers 400 before it registers the handlers that read
  the body: the outcome is the same whatever the body is, and nothing is written.
\<close>

theorem missing_boundary_400:
  assumes h: "req_headers req (lit ''content-type'') = Some ct"
    and mp: "str_includes ct (lit ''multipart/form-data'')"
    and nb: "\<not> str_includes ct (lit ''boundary='')"
  shows "handleUpload_start (req_headers req)
           = Responded (send 400 (lit ''text/plain'') (lit ''Missing boundary''))
    \<and> handleUpload uploadDir now fs req
           = Some (Response (send 400 (lit ''text/plain'') (lit ''Missing boundary'')), fs)"
proof -
  have "match_boundary ct = None"
    using nb by (rule match_boundary_needs_substring)
  then have "handleUpload_start (req_headers req)
           = Responded (send 400 (lit ''text/plain'') (lit ''Missing boundary''))"
    using h mp by (simp add: handleUpload_start_def)
  then show ?thesis by (simp add: handleUpload_def)
qed

theorem missing_boundary_400_witness:
  "req_headers (post_upload (lit ''multipart/form-data'') [lit ''ignored'']) (lit ''content-type'')
     = Some (lit ''multipart/form-data'')
   \<and> str_includes (lit ''multipart/form-data'' :: jsstring) (lit ''multipart/form-data'')
   \<and> \<not> str_includes (lit ''multipart/form-data'' :: jsstring) (lit ''boundary='')
   \<and> handleUpload (UPLOAD_DIR example_env) 0 Map.empty
         (post_upload (lit ''multipart/form-data'') [lit ''ignored''])
       = Some (Response (send 400 (lit ''text/plain'') (lit ''Missing boundary'')), Map.empty)"
proof -
  have h: "req_headers (post_upload (lit ''multipart/form-data'') [lit ''ignored''])
             (lit ''content-type'') = Some (lit ''multipart/form-data'')"
    by (simp add: post_upload_def)
  have mp: "str_includes (lit ''multipart/form-data'' :: jsstring) (lit ''multipart/form-data'')"
    by code_simp
  have nb: "\<not> str_includes (lit ''multipart/form-data'' :: jsstring) (lit ''boundary='')"
    by code_simp
  show ?thesis
    using h mp nb
      missing_boundary_400 [OF h mp nb, of "UPLOAD_DIR example_env" 0 Map.empty]
    by simp
qed

section \<open>MultipartParser: \<open>splitBuffer\<close>\<close>

text \<open>
  Claim C9. For every buffer and every non-empty separator \<open>splitBuffer\<close> returns, the
  number of fragments is one more than the number of separator occurrences found by
  scanning from left to right, and the fragments joined with the separator between
  consecutive fragments are the original buffer.
\<close>

theorem splitBuffer_fragments:
  assumes "separator \<noteq> []"
  shows "\<exists>parts. splitBuffer buffer separator = Some parts
           \<and> length parts = Suc (count_sep separator buffer)
           \<and> join_with separator parts = buffer"
  using assms by (rule splitBuffer_correct)

theorem splitBuffer_fragments_witness:
  "(lit ''--'' :: buffer) \<noteq> []
   \<and> splitBuffer (lit ''a--b----c'') (lit ''--'') = Some [lit ''a'', lit ''b'', [], lit ''c'']
   \<and> count_sep (lit ''--'' :: buffer) (lit ''a--b----c'') = 3
   \<and> join_with (lit ''--'') [lit ''a'', lit ''b'', [], lit ''c''] = (lit ''a--b----c'' :: buffer)"
proof -
  have n: "(lit ''--'' :: buffer) \<noteq> []" by (simp add: lit_def)
  have s: "splitBuffer (lit ''a--b----c'') (lit ''--'') = Some [lit ''a'', lit ''b'', [], lit ''c'']"
    by code_simp
  from splitBuffer_fragments [OF n, of "lit ''a--b----c''"] s
  have "length [lit ''a'', lit ''b'', [], lit ''c'' :: buffer]
          = Suc (count_sep (lit ''--'' :: buffer) (lit ''a--b----c''))"
    and "join_with (lit ''--'') [lit ''a'', lit ''b'', [], lit ''c''] = (lit ''a--b----c'' :: buffer)"
    by auto
  then show ?thesis using n s by simp
qed

section \<open>UploadValidator: the size limit\<close>

text \<open>
  Claim C3. For an upload whose body is streamed to the handlers: when the chunks add up
  to exactly \<open>MAX_UPLOAD_BYTES\<close> (10 MiB) the \<open>data\<close> handler never rejects, every chunk
  is kept and the request goes on to the \<open>end\<close> handler, whose answer is not 413; when
  they add up to more, the answer is 413, no file is written, and the request is
  destroyed exactly when the chunks received so far exceed the limit, that is, on the
  chunk that crosses it.
\<close>

theorem upload_size_limit:
  assumes l: "handleUpload_start (req_headers req) = Listening boundary"
  shows "(sum_list (map length (req_chunks req)) = MAX_UPLOAD_BYTES \<longrightarrow>
            receive upload_init (req_chunks req)
              = \<lparr>totalBytes = MAX_UPLOAD_BYTES, chunks = req_chunks req,
                 destroyed = False, responded = None\<rparr>
            \<and> handleUpload uploadDir now fs req
                = (case req_ending req of
                     Ended \<Rightarrow> on_end uploadDir now fs boundary
                                (receive upload_init (req_chunks req))
                   | Errored \<Rightarrow>
                       Some (Response (send 500 (lit ''text/plain'') (lit ''Upload failed'')),
                             fs))
            \<and> (\<exists>res fs'. handleUpload uploadDir now fs req = Some (res, fs')
                  \<and> (\<forall>r. res = Response r \<longrightarrow> status r \<in> {200, 400, 415, 500})))
       \<and> (MAX_UPLOAD_BYTES < sum_list (map length (req_chunks req)) \<longrightarrow>
            handleUpload uploadDir now fs req
              = Some (Response (send 413 (lit ''text/plain'') (lit ''File too large'')), fs)
            \<and> (\<forall>k \<le> length (req_chunks req).
                  destroyed (receive upload_init (take k (req_chunks req)))
                    \<longleftrightarrow> MAX_UPLOAD_BYTES < sum_list (map length (take k (req_chunks req)))))"
proof (intro conjI impI)
  assume eq: "sum_list (map length (req_chunks req)) = MAX_UPLOAD_BYTES"
  show r: "receive upload_init (req_chunks req)
              = \<lparr>totalBytes = MAX_UPLOAD_BYTES, chunks = req_chunks req,
                 destroyed = False, responded = None\<rparr>"
    using receive_within [of upload_init "req_chunks req"] eq by (simp add: upload_init_def)
  show h: "handleUpload uploadDir now fs req
            = (case req_ending req of
                 Ended \<Rightarrow> on_end uploadDir now fs boundary
                            (receive upload_init (req_chunks req))
               | Errored \<Rightarrow>
                   Some (Response (send 500 (lit ''text/plain'') (lit ''Upload failed'')), fs))"
    using l r by (cases "req_ending req") (simp_all add: handleUpload_def)
  show "\<exists>res fs'. handleUpload uploadDir now fs req = Some (res, fs')
          \<and> (\<forall>r. res = Response r \<longrightarrow> status r \<in> {200, 400, 415, 500})"
  proof (cases "req_ending req")
    case Ended
    then show ?thesis
      using on_end_status [of uploadDir now fs boundary "receive upload_init (req_chunks req)"] h
      by auto
  next
    case Errored
    then show ?thesis using h by simp
  qed
next
  assume gt: "MAX_UPLOAD_BYTES < sum_list (map length (req_chunks req))"
  have "responded (receive upload_init (req_chunks req))
          = Some (send 413 (lit ''text/plain'') (lit ''File too large''))"
    using receive_over [of upload_init "req_chunks req"] gt by (simp add: upload_init_def)
  then show "handleUpload uploadDir now fs req
              = Some (Response (send 413 (lit ''text/plain'') (lit ''File too large'')), fs)"
    using l by (simp add: handleUpload_def)
  show "\<forall>k \<le> length (req_chunks req).
          destroyed (receive upload_init (take k (req_chunks req)))
            \<longleftrightarrow> MAX_UPLOAD_BYTES < sum_list (map length (take k (req_chunks req)))"
    by (simp add: destroyed_receive_iff)
qed

theorem upload_size_limit_witness:
  "handleUpload_start (req_headers (post_upload multipart_xyz [filler 10485760]))
     = Listening (lit ''XYZ'')
   \<and> sum_list (map length (req_chunks (post_upload multipart_xyz [filler 10485760])))
       = MAX_UPLOAD_BYTES
   \<and> receive upload_init [filler 10485760]
       = \<lparr>totalBytes = MAX_UPLOAD_BYTES, chunks = [filler 10485760],
          destroyed = False, responded = None\<rparr>
   \<and> MAX_UPLOAD_BYTES
       < sum_list (map length (req_chunks (post_upload multipart_xyz [filler 10485760, filler 1])))
   \<and> handleUpload (UPLOAD_DIR example_env) 0 Map.empty
         (post_upload multipart_xyz [filler 10485760, filler 1])
       = Some (Response (send 413 (lit ''text/plain'') (lit ''File too large'')), Map.empty)
   \<and> \<not> destroyed (receive upload_init (take 1 [filler 10485760, filler 1]))
   \<and> destroyed (receive upload_init (take 2 [filler 10485760, filler 1]))"
proof -
  have s1: "sum_list (map length (req_chunks (post_upload multipart_xyz [filler 10485760])))
              = MAX_UPLOAD_BYTES"
    by (simp add: MAX_UPLOAD_BYTES_def)
  have s2: "MAX_UPLOAD_BYTES
       < sum_list (map length (req_chunks (post_upload multipart_xyz [filler 10485760, filler 1])))"
    by (simp add: MAX_UPLOAD_BYTES_def)
  note a = upload_size_limit [OF start_multipart_xyz [of "[filler 10485760]"],
            of "UPLOAD_DIR example_env" 0 Map.empty]
  note b = upload_size_limit [OF start_multipart_xyz [of "[filler 10485760, filler 1]"],
            of "UPLOAD_DIR example_env" 0 Map.empty]
  have r: "receive upload_init [filler 10485760]
       = \<lparr>totalBytes = MAX_UPLOAD_BYTES, chunks = [filler 10485760],
          destroyed = False, responded = None\<rparr>"
    using a s1 by simp
  have h: "handleUpload (UPLOAD_DIR example_env) 0 Map.empty
         (post_upload multipart_xyz [filler 10485760, filler 1])
       = Some (Response (send 413 (lit ''text/plain'') (lit ''File too large'')), Map.empty)"
    using b s2 by blast
  have k: "\<forall>k \<le> 2. destroyed (receive upload_init (take k [filler 10485760, filler 1]))
                    \<longleftrightarrow> MAX_UPLOAD_BYTES < sum_list (map length (take k [filler 10485760, filler 1]))"
    using b s2 by simp
  have k1: "\<not> destroyed (receive upload_init (take 1 [filler 10485760, filler 1]))"
    using k [rule_format, of 1] by (simp add: MAX_UPLOAD_BYTES_def)
  have k2: "destroyed (receive upload_init (take 2 [filler 10485760, filler 1]))"
    using k [rule_format, of 2] by (simp add: MAX_UPLOAD_BYTES_def)
  show ?thesis
    using start_multipart_xyz [of "[filler 10485760]"] s1 s2 r h k1 k2 by blast
qed

section \<open>Uploads of well-formed file fields\<close>

text \<open>
  Claim C2, at the upload of the specification's own scenario: one part with the field
  \<open>file\<close>, the file name \<open>report.pdf\<close> and the boundary \<open>XYZ\<close>. The claim expects
  200 and a stored file that can be read back. In the code the greedy \<open>.*\<close> of the
  disposition pattern runs on to the \<open>name="\<close> inside \<open>filename="report.pdf"\<close>, so the
  captured field name is \<open>report.pdf\<close> and no file name is captured; the part is
  skipped, the answer is 400 and the upload directory is unchanged.
\<close>

theorem upload_report_pdf_not_stored:
  "parseMultipart body_report_pdf (lit ''XYZ'')
     = Some [header_report_pdf @ crlf @ crlf @ lit ''%PDF-1.4'']
   \<and> match_disposition (toString header_report_pdf) = Some (lit ''report.pdf'', None)
   \<and> server example_env 1730000000000 Map.empty (post_upload multipart_xyz [body_report_pdf])
       = Some (Response (send 400 (lit ''text/plain'') (lit ''No file uploaded'')), Map.empty)"
proof -
  have p: "parseMultipart body_report_pdf (lit ''XYZ'')
     = Some [header_report_pdf @ crlf @ crlf @ lit ''%PDF-1.4'']"
    by code_simp
  have m: "match_disposition (toString header_report_pdf) = Some (lit ''report.pdf'', None)"
    by code_simp
  have "sum_list (map length (req_chunks (post_upload multipart_xyz [body_report_pdf])))
          \<le> MAX_UPLOAD_BYTES"
    by (simp add: body_report_pdf_def header_report_pdf_def crlf_def lit_def
          MAX_UPLOAD_BYTES_def)
  then have "handleUpload (UPLOAD_DIR example_env) 1730000000000 Map.empty
               (post_upload multipart_xyz [body_report_pdf])
       = Some (Response (send 400 (lit ''text/plain'') (lit ''No file uploaded'')), Map.empty)"
    by (intro handleUpload_no_file [OF start_multipart_xyz]) simp_all
  then show ?thesis using p m by (simp add: server_post_upload)
qed

text \<open>
  Claim C5, at an upload whose only part is the field \<open>file\<close> with the file name
  \<open>virus.exe\<close>, an extension outside the allow-list. The claim expects 415. In the code
  the part is skipped before the extension is looked at, and the answer is 400; no file
  is written.
\<close>

theorem upload_virus_exe_not_rejected:
  "toLowerCase (path_extname (path_basename (lit ''virus.exe''))) \<notin> set ALLOWED_EXTENSIONS
   \<and> match_disposition (toString header_virus_exe) = Some (lit ''virus.exe'', None)
   \<and> upload_parts (UPLOAD_DIR example_env) 1730000000000 Map.empty
        [header_virus_exe @ crlf @ crlf @ lit ''MZ''] = (Finished, Map.empty)
   \<and> server example_env 1730000000000 Map.empty (post_upload multipart_xyz [body_virus_exe])
       = Some (Response (send 400 (lit ''text/plain'') (lit ''No file uploaded'')), Map.empty)"
proof -
  have x: "toLowerCase (path_extname (path_basename (lit ''virus.exe'')))
             \<notin> set ALLOWED_EXTENSIONS"
    by code_simp
  have m: "match_disposition (toString header_virus_exe) = Some (lit ''virus.exe'', None)"
    by code_simp
  have s: "process_part (header_virus_exe @ crlf @ crlf @ lit ''MZ'') = Skip"
    by code_simp
  have "sum_list (map length (req_chunks (post_upload multipart_xyz [body_virus_exe])))
          \<le> MAX_UPLOAD_BYTES"
    by (simp add: body_virus_exe_def header_virus_exe_def crlf_def lit_def
          MAX_UPLOAD_BYTES_def)
  then have "handleUpload (UPLOAD_DIR example_env) 1730000000000 Map.empty
               (post_upload multipart_xyz [body_virus_exe])
       = Some (Response (send 400 (lit ''text/plain'') (lit ''No file uploaded'')), Map.empty)"
    by (intro handleUpload_no_file [OF start_multipart_xyz]) simp_all
  moreover have "upload_parts (UPLOAD_DIR example_env) 1730000000000 Map.empty
        [header_virus_exe @ crlf @ crlf @ lit ''MZ''] = (Finished, Map.empty)"
    by (simp add: s)
  ultimately show ?thesis using x m by (simp add: server_post_upload)
qed

text \<open>
  Claim C6, at a body with two parts that both carry the field \<open>file\<close> and a file name
  (\<open>a.txt\<close> and \<open>b.txt\<close>). The claim expects the first to be stored and the second to
  be ignored. In the code both parts are skipped, nothing is stored and the answer is
  400.
\<close>

theorem upload_two_files_none_stored:
  "parseMultipart body_two_files (lit ''XYZ'')
     = Some [header_a_txt @ crlf @ crlf @ lit ''first'',
             header_b_txt @ crlf @ crlf @ lit ''second'']
   \<and> match_disposition (toString header_a_txt) = Some (lit ''a.txt'', None)
   \<and> upload_parts (UPLOAD_DIR example_env) 1730000000000 Map.empty
        [header_a_txt @ crlf @ crlf @ lit ''first'',
         header_b_txt @ crlf @ crlf @ lit ''second''] = (Finished, Map.empty)
   \<and> server example_env 1730000000000 Map.empty (post_upload multipart_xyz [body_two_files])
       = Some (Response (send 400 (lit ''text/plain'') (lit ''No file uploaded'')), Map.empty)"
proof -
  have p: "parseMultipart body_two_files (lit ''XYZ'')
     = Some [header_a_txt @ crlf @ crlf @ lit ''first'',
             header_b_txt @ crlf @ crlf @ lit ''second'']"
    by code_simp
  have m: "match_disposition (toString header_a_txt) = Some (lit ''a.txt'', None)"
    by code_simp
  have s1: "process_part (header_a_txt @ crlf @ crlf @ lit ''first'') = Skip"
    by code_simp
  have s2: "process_part (header_b_txt @ crlf @ crlf @ lit ''second'') = Skip"
    by code_simp
  have u: "upload_parts (UPLOAD_DIR example_env) 1730000000000 Map.empty
        [header_a_txt @ crlf @ crlf @ lit ''first'',
         header_b_txt @ crlf @ crlf @ lit ''second''] = (Finished, Map.empty)"
    by (simp add: s1 s2)
  have "sum_list (map length (req_chunks (post_upload multipart_xyz [body_two_files])))
          \<le> MAX_UPLOAD_BYTES"
    by (simp add: body_two_files_def header_a_txt_def header_b_txt_def crlf_def lit_def
          MAX_UPLOAD_BYTES_def)
  then have "handleUpload (UPLOAD_DIR example_env) 1730000000000 Map.empty
               (post_upload multipart_xyz [body_two_files])
       = Some (Response (send 400 (lit ''text/plain'') (lit ''No file uploaded'')), Map.empty)"
    by (intro handleUpload_no_file [OF start_multipart_xyz]) simp_all
  then show ?thesis using p m u by (simp add: server_post_upload)
qed

end
